theory Spec2Isabelle
  imports Complex_Main
begin

section \<open>Python strings\<close>

text \<open>
  A Python \<open>str\<close> is a sequence of code points. It is modelled as a \<open>string\<close> whose
  characters are the code points below 256 (ASCII and the Latin-1 supplement, which holds
  the pound sign \<open>CHR 0xA3\<close> of the price texts). On this repertoire \<open>str.isspace\<close>,
  which decides both \<open>str.strip()\<close> and the pattern \<open>\s\<close>, the pattern \<open>\d\<close> and
  \<open>str.lower()\<close> are the functions below.
\<close>

definition isspace :: "char \<Rightarrow> bool" where
  "isspace c =
     (let n = (of_char c :: nat)
      in (9 \<le> n \<and> n \<le> 13) \<or> (28 \<le> n \<and> n \<le> 32) \<or> n = 133 \<or> n = 160)"

definition isdigit :: "char \<Rightarrow> bool" where
  "isdigit c = (let n = (of_char c :: nat) in 48 \<le> n \<and> n \<le> 57)"

definition lower_char :: "char \<Rightarrow> char" where
  "lower_char c =
     (let n = (of_char c :: nat)
      in if (65 \<le> n \<and> n \<le> 90) \<or> (192 \<le> n \<and> n \<le> 222 \<and> n \<noteq> 215)
         then char_of (n + 32) else c)"

definition lower :: "string \<Rightarrow> string" where
  "lower s = map lower_char s"

definition lstrip :: "string \<Rightarrow> string" where
  "lstrip s = dropWhile isspace s"

definition rstrip :: "string \<Rightarrow> string" where
  "rstrip s = rev (dropWhile isspace (rev s))"

definition strip :: "string \<Rightarrow> string" where
  "strip s = rstrip (lstrip s)"

text \<open>\<open>s.startswith(p)\<close> and the substring test \<open>sub in s\<close>.\<close>

fun startswith :: "string \<Rightarrow> string \<Rightarrow> bool" where
  "startswith s [] = True"
| "startswith [] (p # ps) = False"
| "startswith (c # cs) (p # ps) = (c = p \<and> startswith cs ps)"

fun contains :: "string \<Rightarrow> string \<Rightarrow> bool" where
  "contains [] sub = (sub = [])"
| "contains (c # cs) sub = (startswith (c # cs) sub \<or> contains cs sub)"

text \<open>
  Truthiness of an optional string: \<open>None\<close> and the empty string are false. \<open>x or ""\<close>
  is \<open>or_empty x\<close>.
\<close>

fun truthy :: "string option \<Rightarrow> bool" where
  "truthy None = False"
| "truthy (Some s) = (s \<noteq> [])"

fun or_empty :: "string option \<Rightarrow> string" where
  "or_empty None = []"
| "or_empty (Some s) = s"

section \<open>Step 2: cleaning and normalization\<close>

subsection \<open>Category normalization\<close>

definition CATEGORY_LOOKUP :: "(string \<times> string) list" where
  "CATEGORY_LOOKUP =
     [(''Furniture'', ''furniture''),
      (''Ceramics'', ''ceramics''),
      (''Decorative Art'', ''decorative_art''),
      (''Silver'', ''silver''),
      (''Jewellery'', ''jewellery''),
      (''Lighting'', ''lighting'')]"

text \<open>\<open>d.get(k, default)\<close> on a dictionary given by its items.\<close>

definition dict_get :: "(string \<times> string) list \<Rightarrow> string \<Rightarrow> string \<Rightarrow> string" where
  "dict_get d k dflt = (case map_of d k of None \<Rightarrow> dflt | Some v \<Rightarrow> v)"

definition normalize_category :: "string option \<Rightarrow> string" where
  "normalize_category category =
     (case category of
        None \<Rightarrow> ''other''
      | Some c \<Rightarrow>
          if \<not> truthy (Some c) then ''other''
          else dict_get CATEGORY_LOOKUP (strip c) ''other'')"

definition canonical_categories :: "string list" where
  "canonical_categories =
     [''furniture'', ''ceramics'', ''decorative_art'', ''silver'', ''jewellery'', ''lighting'']"

subsection \<open>Text cleaning\<close>

text \<open>
  \<open>re.sub(r"\s+", " ", text)\<close>: every maximal run of whitespace becomes one space.
\<close>

function collapse_ws :: "string \<Rightarrow> string" where
  "collapse_ws [] = []"
| "collapse_ws (c # cs) =
     (if isspace c then CHR '' '' # collapse_ws (dropWhile isspace cs)
      else c # collapse_ws cs)"
  by pat_completeness auto
termination
  by (relation "measure length") (auto simp: less_Suc_eq_le length_dropWhile_le)

definition clean_description :: "string option \<Rightarrow> string option" where
  "clean_description text =
     (case text of
        None \<Rightarrow> None
      | Some t \<Rightarrow>
          if \<not> truthy (Some t) then None
          else let t' = strip (collapse_ws t)
               in if length t' < 20 then None else Some t')"

subsection \<open>Price parsing\<close>

datatype py_error = ValueError | RequestException

text \<open>
  \<open>re.search(r"([\d,.]+)", s)\<close>: the leftmost, longest run of digits, commas and points;
  \<open>None\<close> when the text has no such character.
\<close>

definition is_price_char :: "char \<Rightarrow> bool" where
  "is_price_char c = (isdigit c \<or> c = CHR '','' \<or> c = CHR ''.'')"

definition price_match :: "string \<Rightarrow> string option" where
  "price_match s =
     (let r = dropWhile (\<lambda>c. \<not> is_price_char c) s
      in if r = [] then None else Some (takeWhile is_price_char r))"

definition digits_val :: "string \<Rightarrow> int" where
  "digits_val ds = foldl (\<lambda>a c. 10 * a + (of_char c - 48)) 0 ds"

text \<open>
  A Python \<open>float\<close>: a finite double, given by its exact value, or \<open>inf\<close>. The floats
  that \<open>float(s)\<close> returns on a text of digits and points are not negative.
\<close>

datatype float_value = Float rat | Inf

text \<open>
  \<open>digit_count b n\<close> is the number of digits of \<open>n\<close> in base \<open>b\<close>, and \<open>floor_log b q\<close>
  the integer \<open>l\<close> with \<open>b ^ l \<le> q < b ^ (l + 1)\<close> for a positive \<open>q\<close>; \<open>scale b e\<close> is
  \<open>b\<close> to the power \<open>e\<close>, which may be negative.
\<close>

function digit_count :: "int \<Rightarrow> int \<Rightarrow> nat" where
  "digit_count b n = (if n \<le> 0 \<or> b < 2 then 0 else Suc (digit_count b (n div b)))"
  by pat_completeness auto
termination
proof (relation "measure (\<lambda>(b, n). nat n)")
  show "wf (measure (\<lambda>(b, n). nat n))" by simp
next
  fix b n :: int
  assume "\<not> (n \<le> 0 \<or> b < 2)"
  then have "0 < n" "1 < b" by auto
  then have "n div b < n" by (rule int_div_less_self)
  moreover have "0 \<le> n div b" using \<open>0 < n\<close> \<open>1 < b\<close> by (simp add: pos_imp_zdiv_nonneg_iff)
  ultimately show "((b, n div b), (b, n)) \<in> measure (\<lambda>(b, n). nat n)"
    by simp
qed

declare digit_count.simps [simp del]

definition floor_log :: "int \<Rightarrow> rat \<Rightarrow> int" where
  "floor_log b q =
     (if 1 \<le> q then int (digit_count b \<lfloor>q\<rfloor>) - 1
      else - int (digit_count b (\<lceil>1 / q\<rceil> - 1)))"

definition scale :: "int \<Rightarrow> int \<Rightarrow> rat" where
  "scale b e = (if 0 \<le> e then of_int (b ^ nat e) else 1 / of_int (b ^ nat (- e)))"

text \<open>
  Rounding a number that is not negative to the nearest double, ties to even, as
  IEEE 754 and Python's correctly rounded \<open>float\<close> do: a positive \<open>q\<close> is written with a
  53-bit significand at its binary exponent (not below the exponent \<open>-1074\<close> of the
  subnormal doubles) and the significand is rounded to an integer; a result of
  \<open>2 ^ 1024\<close> or more is \<open>inf\<close>. \<open>py_float\<close> passes no negative number.
\<close>

definition round_half_even :: "rat \<Rightarrow> int" where
  "round_half_even t =
     (let f = \<lfloor>t\<rfloor>; d = t - of_int f
      in if d < 1 / 2 then f else if 1 / 2 < d then f + 1 else if even f then f else f + 1)"

definition round_to_double :: "rat \<Rightarrow> float_value" where
  "round_to_double q =
     (if q \<le> 0 then Float 0
      else let e = max (floor_log 2 q - 52) (- 1074);
               r = of_int (round_half_even (q / scale 2 e)) * scale 2 e
           in if 2 ^ 1024 \<le> r then Inf else Float r)"

text \<open>
  \<open>float(s)\<close> on the strings \<open>parse_price_value\<close> passes, which hold digits and points
  only: such a string is a number when it has at most one point and at least one digit,
  and \<open>float\<close> raises \<open>ValueError\<close> otherwise. The result is the double nearest to the
  decimal.
\<close>

definition py_float :: "string \<Rightarrow> py_error + float_value" where
  "py_float s =
     (let ip = takeWhile isdigit s; rest = dropWhile isdigit s
      in case rest of
           [] \<Rightarrow> if ip = [] then Inl ValueError
                 else Inr (round_to_double (of_int (digits_val ip)))
         | c # fp \<Rightarrow>
             if c = CHR ''.'' \<and> list_all isdigit fp \<and> (ip \<noteq> [] \<or> fp \<noteq> [])
             then Inr (round_to_double (of_int (digits_val (ip @ fp)) / 10 ^ length fp))
             else Inl ValueError)"

text \<open>\<open>s.replace(",", "")\<close>.\<close>

definition remove_commas :: "string \<Rightarrow> string" where
  "remove_commas s = filter (\<lambda>c. c \<noteq> CHR '','') s"

text \<open>
  The \<open>try\<close> block catches \<open>ValueError\<close> only; any other exception of \<open>float\<close> would
  leave the function, so the result is an error or an optional number.
\<close>

definition parse_price_value :: "string option \<Rightarrow> py_error + float_value option" where
  "parse_price_value price_text =
     (case price_text of
        None \<Rightarrow> Inr None
      | Some t \<Rightarrow>
          if \<not> truthy (Some t) then Inr None
          else let t' = lower t
               in if contains t' ''poa'' then Inr None
                  else (case price_match t' of
                          None \<Rightarrow> Inr None
                        | Some m \<Rightarrow>
                            (case py_float (remove_commas m) of
                               Inr v \<Rightarrow> Inr (Some v)
                             | Inl ValueError \<Rightarrow> Inr None
                             | Inl e \<Rightarrow> Inl e)))"

subsection \<open>The textual form of a float\<close>

text \<open>
  \<open>repr(x)\<close> of a float, which is also the text \<open>json.dump\<close> writes for a finite price
  value. Its digits are the shortest decimal that \<open>float\<close> reads back as \<open>x\<close>, and among
  the decimals of that length the one nearest to \<open>x\<close>. \<open>digits_at v p\<close> looks for such a
  decimal with \<open>p\<close> significant digits: the two decimals of that length around \<open>v\<close> are
  the only candidates. The result \<open>(D, x)\<close> stands for \<open>D\<close> times ten to the power \<open>x\<close>,
  without trailing zeros. No double needs more than 17 digits; \<open>shortest_digits\<close> is
  \<open>None\<close> for a value that is no double.
\<close>

function strip_zeros :: "int \<Rightarrow> int \<Rightarrow> int \<times> int" where
  "strip_zeros c x =
     (if c \<noteq> 0 \<and> c mod 10 = 0 then strip_zeros (c div 10) (x + 1) else (c, x))"
  by pat_completeness auto
termination
  by (relation "measure (\<lambda>(c, x). nat \<bar>c\<bar>)") auto

declare strip_zeros.simps [simp del]

definition digits_at :: "rat \<Rightarrow> nat \<Rightarrow> (int \<times> int) option" where
  "digits_at v p =
     (let x = floor_log 10 v - int p + 1;
          t = v / scale 10 x;
          lo = \<lfloor>t\<rfloor>;
          hi = lo + 1;
          lo_ok = (round_to_double (of_int lo * scale 10 x) = Float v);
          hi_ok = (round_to_double (of_int hi * scale 10 x) = Float v);
          d = t - of_int lo
      in if lo_ok \<and> hi_ok
         then Some (strip_zeros (if d < 1 / 2 \<or> (d = 1 / 2 \<and> even lo) then lo else hi) x)
         else if lo_ok then Some (strip_zeros lo x)
         else if hi_ok then Some (strip_zeros hi x)
         else None)"

fun first_some :: "('a \<Rightarrow> 'b option) \<Rightarrow> 'a list \<Rightarrow> 'b option" where
  "first_some f [] = None"
| "first_some f (x # xs) = (case f x of None \<Rightarrow> first_some f xs | Some y \<Rightarrow> Some y)"

definition shortest_digits :: "rat \<Rightarrow> (int \<times> int) option" where
  "shortest_digits v = first_some (digits_at v) [1..<18]"

text \<open>The decimal digits of a number that is not negative.\<close>

function show_int :: "int \<Rightarrow> string" where
  "show_int n =
     (if n < 10 then [char_of (48 + n)]
      else show_int (n div 10) @ [char_of (48 + n mod 10)])"
  by pat_completeness auto
termination
  by (relation "measure nat") auto

declare show_int.simps [simp del]

text \<open>
  The two layouts of \<open>repr\<close>, for the digits \<open>ds\<close> of a value \<open>0.ds\<close> times ten to the
  power \<open>decpt\<close>: with the point in place and at least one digit on each side of it, or
  with an exponent of at least two digits. \<open>repr\<close> uses the exponent when \<open>decpt\<close> is at
  most \<open>-4\<close> or more than 16.
\<close>

definition positional :: "string \<Rightarrow> int \<Rightarrow> string" where
  "positional ds decpt =
     (if decpt \<le> 0 then ''0.'' @ replicate (nat (- decpt)) CHR ''0'' @ ds
      else if int (length ds) \<le> decpt
           then ds @ replicate (nat decpt - length ds) CHR ''0'' @ ''.0''
           else take (nat decpt) ds @ ''.'' @ drop (nat decpt) ds)"

definition exponential :: "string \<Rightarrow> int \<Rightarrow> string" where
  "exponential ds decpt =
     (let ex = decpt - 1;
          mantissa = (if length ds = 1 then ds else take 1 ds @ ''.'' @ drop 1 ds);
          es = show_int \<bar>ex\<bar>
      in mantissa @ ''e'' @ (if ex < 0 then ''-'' else ''+'')
           @ (if length es < 2 then ''0'' @ es else es))"

definition repr_positive :: "rat \<Rightarrow> string option" where
  "repr_positive v =
     (case shortest_digits v of
        None \<Rightarrow> None
      | Some (D, x) \<Rightarrow>
          let ds = show_int D; decpt = int (length ds) + x
          in Some (if decpt \<le> - 4 \<or> 16 < decpt then exponential ds decpt
                   else positional ds decpt))"

definition float_repr :: "float_value \<Rightarrow> string option" where
  "float_repr f =
     (case f of
        Inf \<Rightarrow> Some ''inf''
      | Float v \<Rightarrow>
          if v = 0 then Some ''0.0''
          else if v < 0 then map_option (\<lambda>s. ''-'' @ s) (repr_positive (- v))
          else repr_positive v)"


subsection \<open>Deduplication and the cleaning pipeline\<close>

text \<open>
  A raw record as step 1 writes it: the source URL, the category label and the currency
  are always strings, the other texts may be \<open>null\<close>. The cleaned record keeps these
  fields (here with the prefix \<open>c_\<close> where the name is the same) and adds the three
  normalized ones.
\<close>

record raw_item =
  source_url :: string
  item_title :: "string option"
  category :: string
  description_raw :: "string option"
  images :: "string list"
  listed_price :: "string option"
  currency :: string
  seller_location :: "string option"

record clean_item =
  c_source_url :: string
  c_item_title :: "string option"
  category_raw :: string
  c_description_raw :: "string option"
  listed_price_raw :: "string option"
  c_currency :: string
  c_seller_location :: "string option"
  c_images :: "string list"
  category_normalized :: string
  description_clean :: "string option"
  price_value :: "float_value option"

definition build_dedupe_key :: "raw_item \<Rightarrow> string" where
  "build_dedupe_key item =
     (let title = strip (lower (or_empty (item_title item)));
          price = strip (or_empty (listed_price item))
      in take 40 title @ ''::'' @ price)"

text \<open>The record \<open>main\<close> builds for an item that is kept.\<close>

definition cleaned_record :: "raw_item \<Rightarrow> py_error + clean_item" where
  "cleaned_record item =
     (case parse_price_value (listed_price item) of
        Inl e \<Rightarrow> Inl e
      | Inr pv \<Rightarrow>
          Inr \<lparr> c_source_url = source_url item,
                c_item_title = item_title item,
                category_raw = category item,
                c_description_raw = description_raw item,
                listed_price_raw = listed_price item,
                c_currency = currency item,
                c_seller_location = seller_location item,
                c_images = images item,
                category_normalized = normalize_category (Some (category item)),
                description_clean = clean_description (description_raw item),
                price_value = pv \<rparr>)"

text \<open>
  The loop of \<open>main\<close> over the raw items, with its two variables \<open>cleaned_items\<close> and
  \<open>seen_keys\<close> as the state.
\<close>

fun main_loop ::
  "raw_item list \<Rightarrow> clean_item list \<times> string set \<Rightarrow> py_error + clean_item list \<times> string set"
where
  "main_loop [] st = Inr st"
| "main_loop (item # items) (cleaned_items, seen_keys) =
     (let dedupe_id = build_dedupe_key item
      in if dedupe_id \<in> seen_keys then main_loop items (cleaned_items, seen_keys)
         else case cleaned_record item of
                Inl e \<Rightarrow> Inl e
              | Inr r \<Rightarrow> main_loop items (cleaned_items @ [r], insert dedupe_id seen_keys))"

definition main :: "raw_item list \<Rightarrow> py_error + clean_item list" where
  "main raw_items =
     (case main_loop raw_items ([], {}) of
        Inl e \<Rightarrow> Inl e
      | Inr (cleaned_items, seen_keys) \<Rightarrow> Inr cleaned_items)"

section \<open>Step 1: data collection\<close>

definition BASE_SITE_URL :: string where
  "BASE_SITE_URL = ''https://www.antiques-atlas.com''"

definition CATEGORY_PATHS :: "(string \<times> string) list" where
  "CATEGORY_PATHS =
     [(''Furniture'', ''/antiques/furniture/''),
      (''Ceramics'', ''/antiques/ceramics/''),
      (''Decorative Art'', ''/antiques/decorative/''),
      (''Silver'', ''/antiques/silver/''),
      (''Jewellery'', ''/antiques/jewellery/''),
      (''Lighting'', ''/antiques/lighting/'')]"

definition MAX_ITEMS_PER_CATEGORY :: nat where
  "MAX_ITEMS_PER_CATEGORY = 30"

definition MAX_PAGES_TO_SCAN :: nat where
  "MAX_PAGES_TO_SCAN = 30"

subsection \<open>The fetched item page\<close>

text \<open>
  An item page is modelled by what the queries of the script find in it: the text of the
  first \<open>h1\<close>, the \<open>content\<close> of the \<open>og:description\<close> meta tag, the first JSON-LD script,
  the text of the \<open>span\<close> of class \<open>price\<close> and of class \<open>dealer-location\<close>, and the
  \<open>src\<close> and \<open>data-src\<close> attributes of every \<open>img\<close> in document order. A tag or an
  attribute that is absent is \<open>None\<close>.
\<close>

record img_tag =
  src :: "string option"
  data_src :: "string option"

datatype json_ld_script =
  NoScript
| Unparseable
| NotDict
| Dict "string option"

record item_page =
  h1_text :: "string option"
  og_description :: "string option"
  json_ld :: json_ld_script
  price_text :: "string option"
  dealer_location_text :: "string option"
  img_tags :: "img_tag list"

text \<open>\<open>a or b\<close> on optional strings.\<close>

definition py_or :: "string option \<Rightarrow> string option \<Rightarrow> string option" where
  "py_or a b = (if truthy a then a else b)"

definition extract_description :: "item_page \<Rightarrow> string option" where
  "extract_description item_page =
     (let description_text =
            (case og_description item_page of
               None \<Rightarrow> None
             | Some content \<Rightarrow> if truthy (Some content) then Some (strip content) else None)
      in if \<not> truthy description_text
         then (case json_ld item_page of
                 NoScript \<Rightarrow> description_text
               | Unparseable \<Rightarrow> description_text
               | NotDict \<Rightarrow> description_text
               | Dict d \<Rightarrow> d)
         else description_text)"

subsection \<open>Image collection\<close>

definition IMAGE_CDN :: string where
  "IMAGE_CDN = ''images.antiquesatlas.com''"

text \<open>The loop over the \<open>img\<close> tags, with the list \<open>image_urls\<close> it appends to.\<close>

fun image_loop :: "img_tag list \<Rightarrow> string list \<Rightarrow> string list" where
  "image_loop [] image_urls = image_urls"
| "image_loop (img # imgs) image_urls =
     (case py_or (src img) (data_src img) of
        None \<Rightarrow> image_loop imgs image_urls
      | Some s \<Rightarrow>
          if \<not> truthy (Some s) then image_loop imgs image_urls
          else let s' = (if startswith s ''//'' then ''https:'' @ s else s)
               in if contains s' IMAGE_CDN then image_loop imgs (image_urls @ [s'])
                  else image_loop imgs image_urls)"

text \<open>
  \<open>list(dict.fromkeys(xs))\<close>: the keys of the dictionary in insertion order. A key that
  is already present keeps its place.
\<close>

definition dict_fromkeys :: "string list \<Rightarrow> string list" where
  "dict_fromkeys xs = foldl (\<lambda>d k. if k \<in> set d then d else d @ [k]) [] xs"

definition extract_images :: "item_page \<Rightarrow> string list" where
  "extract_images item_page = take 5 (dict_fromkeys (image_loop (img_tags item_page) []))"

definition extract_record :: "string \<Rightarrow> string \<Rightarrow> item_page \<Rightarrow> raw_item" where
  "extract_record category_name item_url item_page =
     \<lparr> source_url = item_url,
       item_title = h1_text item_page,
       category = category_name,
       description_raw = extract_description item_page,
       images = extract_images item_page,
       listed_price = price_text item_page,
       currency = ''GBP'',
       seller_location = dealer_location_text item_page \<rparr>"

subsection \<open>The walk over the categories\<close>

text \<open>
  The site is what \<open>requests.get\<close> answers. \<open>fetch_listing path n\<close> is the answer to the listing
  page \<open>n\<close> of the category at \<open>path\<close>: \<open>None\<close> when the request raises, else the \<open>href\<close>
  of each anchor the selector \<open>a[href^='/antique/']\<close> finds, in document order.
  \<open>fetch_item url\<close> is the answer to an item page: \<open>None\<close> when the request or the parse raises.
  Every URL is requested at most once in a run, so a function stands for the site.
\<close>

record site =
  fetch_listing :: "string \<Rightarrow> nat \<Rightarrow> string option list option"
  fetch_item :: "string \<Rightarrow> item_page option"

text \<open>
  The state of the script: its two global variables, and the log of the requests it has
  sent, which records the effect of every \<open>requests.get\<close>.
\<close>

datatype request = ListingPage string nat | ItemPage string

record scrape_state =
  collected_items :: "raw_item list"
  visited_item_urls :: "string set"
  requests_log :: "request list"

text \<open>
  The loop over the links of one listing page, with \<open>items_collected\<close> and the state.
  An exception in the \<open>try\<close> block is caught: the item is skipped and stays visited.
\<close>

fun scan_links ::
  "site \<Rightarrow> string \<Rightarrow> string option list \<Rightarrow> nat \<times> scrape_state \<Rightarrow> nat \<times> scrape_state"
where
  "scan_links w category_name [] (items_collected, st) = (items_collected, st)"
| "scan_links w category_name (link # links) (items_collected, st) =
     (if items_collected \<ge> MAX_ITEMS_PER_CATEGORY then (items_collected, st)
      else case link of
        None \<Rightarrow> scan_links w category_name links (items_collected, st)
      | Some relative_url \<Rightarrow>
          if \<not> truthy (Some relative_url)
          then scan_links w category_name links (items_collected, st)
          else let item_url = BASE_SITE_URL @ relative_url
               in if item_url \<in> visited_item_urls st
                  then scan_links w category_name links (items_collected, st)
                  else let st' = st\<lparr> visited_item_urls := insert item_url (visited_item_urls st),
                                       requests_log := requests_log st @ [ItemPage item_url] \<rparr>
                       in (case fetch_item w item_url of
                             None \<Rightarrow> scan_links w category_name links (items_collected, st')
                           | Some item_page \<Rightarrow>
                               scan_links w category_name links
                                 (items_collected + 1,
                                  st'\<lparr> collected_items := collected_items st'
                                         @ [extract_record category_name item_url item_page] \<rparr>)))"

text \<open>
  The \<open>while\<close> loop over the listing pages of one category. A listing request that
  raises is not caught: the exception leaves the script, here with the state it had.
\<close>

function walk_pages ::
  "site \<Rightarrow> string \<Rightarrow> string \<Rightarrow> nat \<Rightarrow> nat \<times> scrape_state
     \<Rightarrow> (py_error \<times> scrape_state) + (nat \<times> scrape_state)"
where
  "walk_pages w category_name category_path page_number (items_collected, st) =
     (if items_collected < MAX_ITEMS_PER_CATEGORY \<and> page_number \<le> MAX_PAGES_TO_SCAN
      then let st' = st\<lparr> requests_log := requests_log st
                            @ [ListingPage category_path page_number] \<rparr>
           in case fetch_listing w category_path page_number of
                None \<Rightarrow> Inl (RequestException, st')
              | Some item_links \<Rightarrow>
                  if item_links = [] then Inr (items_collected, st')
                  else walk_pages w category_name category_path (page_number + 1)
                         (scan_links w category_name item_links (items_collected, st'))
      else Inr (items_collected, st))"
  by pat_completeness auto
termination
  by (relation "measure (\<lambda>(w, c, p, page_number, s). Suc MAX_PAGES_TO_SCAN - page_number)") auto

declare walk_pages.simps [simp del]

definition walk_category ::
  "site \<Rightarrow> string \<Rightarrow> string \<Rightarrow> scrape_state \<Rightarrow> (py_error \<times> scrape_state) + scrape_state"
where
  "walk_category w category_name category_path st =
     (case walk_pages w category_name category_path 1 (0, st) of
        Inl e \<Rightarrow> Inl e
      | Inr (items_collected, st') \<Rightarrow> Inr st')"

text \<open>The loop over the configured categories, and the whole run from the empty state.\<close>

fun scrape_categories ::
  "site \<Rightarrow> (string \<times> string) list \<Rightarrow> scrape_state \<Rightarrow> (py_error \<times> scrape_state) + scrape_state"
where
  "scrape_categories w [] st = Inr st"
| "scrape_categories w ((category_name, category_path) # cs) st =
     (case walk_category w category_name category_path st of
        Inl e \<Rightarrow> Inl e
      | Inr st' \<Rightarrow> scrape_categories w cs st')"

definition initial_state :: scrape_state where
  "initial_state = \<lparr> collected_items = [], visited_item_urls = {}, requests_log = [] \<rparr>"

definition scrape :: "site \<Rightarrow> (py_error \<times> scrape_state) + scrape_state" where
  "scrape w = scrape_categories w CATEGORY_PATHS initial_state"

text \<open>The state a run or a walk ends in, whether it returns or an exception leaves it.\<close>

fun final_state :: "(py_error \<times> scrape_state) + scrape_state \<Rightarrow> scrape_state" where
  "final_state (Inl (e, st)) = st"
| "final_state (Inr st) = st"

section \<open>Notions of the specification, proof devices and examples\<close>

text \<open>
  Nothing in this section is part of the program. It holds the notions the properties
  are stated with (the candidate URL of an image, the host of a URL, the discoverable
  items of a category, the invariant of a run), the auxiliary functions of the proofs,
  and the inputs of the examples.
\<close>

text \<open>
  A proof device, not part of the program: a text is single-spaced when each of its
  whitespace characters is a space that no whitespace character follows.
\<close>

fun single_spaced :: "string \<Rightarrow> bool" where
  "single_spaced [] = True"
| "single_spaced [c] = (isspace c \<longrightarrow> c = CHR '' '')"
| "single_spaced (c # d # cs) =
     ((isspace c \<longrightarrow> c = CHR '' '' \<and> \<not> isspace d) \<and> single_spaced (d # cs))"

text \<open>
  A proof device: the elements of a list whose key is new, given the keys seen so far.
  With the dedup key it yields the items the loop of \<open>main\<close> keeps.
\<close>

fun first_by :: "('a \<Rightarrow> 'k) \<Rightarrow> 'k set \<Rightarrow> 'a list \<Rightarrow> 'a list" where
  "first_by key seen [] = []"
| "first_by key seen (x # xs) =
     (if key x \<in> seen then first_by key seen xs
      else x # first_by key (insert (key x) seen) xs)"

text \<open>A raw record with the given source, title and price text, for the examples.\<close>

definition raw_fixture :: "string \<Rightarrow> string option \<Rightarrow> string option \<Rightarrow> raw_item" where
  "raw_fixture url title price =
     \<lparr> source_url = url, item_title = title, category = ''Furniture'',
       description_raw = None, images = [], listed_price = price,
       currency = ''GBP'', seller_location = None \<rparr>"

text \<open>
  The URL the image loop tests for an \<open>img\<close> tag: its \<open>src\<close>, or else its
  \<open>data-src\<close>, with a leading \<open>//\<close> rewritten to \<open>https://\<close>; \<open>None\<close> when
  the tag has neither.
\<close>

definition candidate_url :: "img_tag \<Rightarrow> string option" where
  "candidate_url img =
     (case py_or (src img) (data_src img) of
        None \<Rightarrow> None
      | Some s \<Rightarrow>
          if s = [] then None
          else Some (if startswith s ''//'' then ''https:'' @ s else s))"

text \<open>
  The host component of a URL, as the specification speaks of it: the text between
  \<open>://\<close> and the next \<open>/\<close>, \<open>?\<close> or \<open>#\<close>. The script never computes it.
\<close>

fun after_scheme :: "string \<Rightarrow> string" where
  "after_scheme [] = []"
| "after_scheme (c # cs) =
     (if startswith (c # cs) ''://'' then drop 3 (c # cs) else after_scheme cs)"

definition url_host :: "string \<Rightarrow> string" where
  "url_host u = takeWhile (\<lambda>c. c \<notin> set ''/?#'') (after_scheme u)"

text \<open>An \<open>img\<close> tag with a \<open>src\<close> only, and a page with nothing but images, for the examples.\<close>

definition img_src :: "string \<Rightarrow> img_tag" where
  "img_src s = \<lparr> src = Some s, data_src = None \<rparr>"

definition page_with_images :: "img_tag list \<Rightarrow> item_page" where
  "page_with_images imgs =
     \<lparr> h1_text = None, og_description = None, json_ld = NoScript, price_text = None,
       dealer_location_text = None, img_tags = imgs \<rparr>"

text \<open>The item URL a link of a listing page leads to; \<open>None\<close> for a link the loop skips.\<close>

definition link_url :: "string option \<Rightarrow> string option" where
  "link_url link =
     (case link of
        None \<Rightarrow> None
      | Some relative_url \<Rightarrow>
          if relative_url = [] then None else Some (BASE_SITE_URL @ relative_url))"

text \<open>
  The discoverable items of a sequence of links, as the specification speaks of them:
  in link order, each item whose URL is not visited yet (before the walk or earlier in
  the sequence) and whose page can be fetched, with the page. The cap plays no part.
\<close>

fun discover :: "site \<Rightarrow> string set \<Rightarrow> string option list \<Rightarrow> (string \<times> item_page) list" where
  "discover w visited [] = []"
| "discover w visited (link # links) =
     (case link_url link of
        None \<Rightarrow> discover w visited links
      | Some u \<Rightarrow>
          if u \<in> visited then discover w visited links
          else (case fetch_item w u of
                  None \<Rightarrow> discover w (insert u visited) links
                | Some page \<Rightarrow> (u, page) # discover w (insert u visited) links))"

text \<open>
  The links of the listing pages of a category from a page number on, page by page, up
  to the first page without links and to the last page the script may scan.
\<close>

fun links_of :: "string option list option \<Rightarrow> string option list" where
  "links_of None = []"
| "links_of (Some links) = links"

definition links_from :: "site \<Rightarrow> string \<Rightarrow> nat \<Rightarrow> string option list" where
  "links_from w path page =
     concat (takeWhile (\<lambda>links. links \<noteq> [])
       (map (\<lambda>q. links_of (fetch_listing w path q)) [page..<Suc MAX_PAGES_TO_SCAN]))"

text \<open>The item URLs among the requests of a log, and the state a page walk ends in.\<close>

fun item_requests :: "request list \<Rightarrow> string list" where
  "item_requests [] = []"
| "item_requests (ListingPage path page # rs) = item_requests rs"
| "item_requests (ItemPage u # rs) = u # item_requests rs"

fun walk_state :: "(py_error \<times> scrape_state) + (nat \<times> scrape_state) \<Rightarrow> scrape_state" where
  "walk_state (Inl (e, st)) = st"
| "walk_state (Inr (n, st)) = st"

text \<open>
  The invariant of a run: the sources of the collected records are pairwise distinct,
  each of them has been requested, no item is requested twice, and every requested item
  URL is in the visited set.
\<close>

definition crawl_inv :: "scrape_state \<Rightarrow> bool" where
  "crawl_inv st =
     (distinct (map source_url (collected_items st))
      \<and> set (map source_url (collected_items st)) \<subseteq> set (item_requests (requests_log st))
      \<and> distinct (item_requests (requests_log st))
      \<and> set (item_requests (requests_log st)) \<subseteq> visited_item_urls st)"

text \<open>
  A proof device: what a walk for a category may do to the state. It keeps the
  invariant and the visited URLs, and appends records of this category only, none of
  them for a URL visited before.
\<close>

definition walk_effect :: "string \<Rightarrow> scrape_state \<Rightarrow> scrape_state \<Rightarrow> bool" where
  "walk_effect cat st st' =
     (crawl_inv st' \<and> visited_item_urls st \<subseteq> visited_item_urls st'
      \<and> (\<exists>new. collected_items st' = collected_items st @ new
            \<and> list_all (\<lambda>r. category r = cat \<and> source_url r \<notin> visited_item_urls st) new))"

text \<open>
  Sites for the examples. Every listing page and every item page can be fetched, and
  the listing pages are the same for every category.
\<close>

definition item_link :: "nat \<Rightarrow> string option" where
  "item_link i = Some (''/antique/item-'' @ [char_of (48 + i div 10), char_of (48 + i mod 10)])"

definition site_of_pages :: "(nat \<Rightarrow> string option list) \<Rightarrow> site" where
  "site_of_pages pages =
     \<lparr> fetch_listing = (\<lambda>path page. Some (pages page)),
       fetch_item = (\<lambda>u. Some (page_with_images [])) \<rparr>"

definition fifty_items :: site where
  "fifty_items =
     site_of_pages (\<lambda>page. if page = 1 then map item_link [1..<26]
                            else if page = 2 then map item_link [26..<51] else [])"

definition empty_third_page :: site where
  "empty_third_page =
     site_of_pages (\<lambda>page. if page = 1 then [item_link 1, item_link 2]
                            else if page = 2 then [item_link 3]
                            else if page = 3 then [] else [item_link page])"

definition shared_items :: site where
  "shared_items =
     site_of_pages (\<lambda>page. if page = 1 then [item_link 1, item_link 2, item_link 1] else [])"

section \<open>Properties of the cleaning step\<close>

subsection \<open>Characters and trimming\<close>

lemma char_eq_code: "(c = d) = ((of_char c :: nat) = of_char d)"
  by simp

lemma is_price_char_code:
  "is_price_char c =
     ((48 \<le> (of_char c :: nat) \<and> (of_char c :: nat) \<le> 57) \<or>
      (of_char c :: nat) = 44 \<or> (of_char c :: nat) = 46)"
  unfolding is_price_char_def isdigit_def Let_def
  by (simp add: char_eq_code[of c])

lemma of_char_lower_char:
  "(of_char (lower_char c) :: nat) =
     (if (65 \<le> (of_char c :: nat) \<and> (of_char c :: nat) \<le> 90) \<or>
         (192 \<le> (of_char c :: nat) \<and> (of_char c :: nat) \<le> 222 \<and> (of_char c :: nat) \<noteq> 215)
      then of_char c + 32 else of_char c)"
  by (auto simp: lower_char_def Let_def)

lemma is_price_char_lower: "is_price_char (lower_char c) = is_price_char c"
  by (auto simp: is_price_char_code of_char_lower_char)

lemma is_price_char_lower_id: "is_price_char c \<Longrightarrow> lower_char c = c"
  by (auto simp: is_price_char_code lower_char_def Let_def)

lemma isdigit_not_p: "isdigit c \<Longrightarrow> c \<noteq> CHR ''p''"
  by (auto simp: isdigit_def)

lemma isdigit_not_comma: "isdigit c \<Longrightarrow> c \<noteq> CHR '',''"
  by (auto simp: isdigit_def)

lemma not_isdigit_point: "\<not> isdigit CHR ''.''"
  by (simp add: isdigit_def)

lemma isspace_space: "isspace CHR '' ''"
  by (simp add: isspace_def)

lemma rstrip_Nil: "rstrip [] = []"
  by (simp add: rstrip_def)

lemma rstrip_eq_Nil: "(rstrip xs = []) = (\<forall>c\<in>set xs. isspace c)"
  by (simp add: rstrip_def)

lemma rstrip_Cons:
  "rstrip (x # xs) =
     (if rstrip xs = [] then (if isspace x then [] else [x]) else x # rstrip xs)"
  by (auto simp: rstrip_eq_Nil) (auto simp: rstrip_def dropWhile_append)

lemma strip_Nil: "strip [] = []"
  by (simp add: strip_def lstrip_def rstrip_def)

lemma lstrip_rstrip: "lstrip (rstrip (lstrip xs)) = rstrip (lstrip xs)"
proof (cases "lstrip xs")
  case Nil
  show ?thesis unfolding Nil rstrip_Nil by (simp add: lstrip_def)
next
  case (Cons d ds)
  then have "\<not> isspace d"
    using hd_dropWhile[of isspace xs] by (auto simp: lstrip_def)
  then show ?thesis
    unfolding Cons by (simp add: rstrip_Cons lstrip_def)
qed

lemma rstrip_idem: "rstrip (rstrip xs) = rstrip xs"
  by (simp add: rstrip_def)

lemma strip_idem: "strip (strip xs) = strip xs"
  by (simp add: strip_def lstrip_rstrip rstrip_idem)

lemma startswith_hd: "startswith s (p # ps) \<Longrightarrow> s \<noteq> [] \<and> hd s = p"
  by (cases s) auto

lemma contains_hd_in_set: "contains s (p # ps) \<Longrightarrow> p \<in> set s"
  by (induction s) (auto dest: startswith_hd)

subsection \<open>Category normalization\<close>

lemma normalize_category_cases:
  "normalize_category (Some c) =
     (if strip c = ''Furniture'' then ''furniture''
      else if strip c = ''Ceramics'' then ''ceramics''
      else if strip c = ''Decorative Art'' then ''decorative_art''
      else if strip c = ''Silver'' then ''silver''
      else if strip c = ''Jewellery'' then ''jewellery''
      else if strip c = ''Lighting'' then ''lighting''
      else ''other'')"
  by (cases "c = []")
    (simp_all add: normalize_category_def dict_get_def CATEGORY_LOOKUP_def strip_Nil)

lemma normalize_category_None: "normalize_category None = ''other''"
  by (simp add: normalize_category_def)

lemma normalize_category_range:
  "normalize_category c \<in> set (canonical_categories @ [''other''])"
  by (cases c)
    (simp_all add: normalize_category_cases normalize_category_None canonical_categories_def)

text \<open>
  C5. \<open>normalize_category\<close> is total: for a missing label, the empty label and every
  other text its result is one of the six canonical identifiers of the lookup table or
  the fallback \<open>other\<close>, and the identifier is chosen by comparing the trimmed label
  with the six keys of the table for equality.
\<close>

theorem normalize_category_total:
  "normalize_category c \<in> set (canonical_categories @ [''other''])
   \<and> normalize_category None = ''other''
   \<and> normalize_category (Some []) = ''other''
   \<and> normalize_category (Some l) =
       (if strip l = ''Furniture'' then ''furniture''
        else if strip l = ''Ceramics'' then ''ceramics''
        else if strip l = ''Decorative Art'' then ''decorative_art''
        else if strip l = ''Silver'' then ''silver''
        else if strip l = ''Jewellery'' then ''jewellery''
        else if strip l = ''Lighting'' then ''lighting''
        else ''other'')"
proof -
  have "normalize_category (Some []) = ''other''"
    by (simp add: normalize_category_def)
  then show ?thesis
    using normalize_category_range[of c] normalize_category_cases[of l]
    by (simp only: normalize_category_None simp_thms)
qed

theorem normalize_category_total_witness:
  "normalize_category (Some ''  Silver '') = ''silver''
   \<and> normalize_category (Some ''silver'') = ''other''
   \<and> normalize_category (Some ''Decorative Art'') \<in> set (canonical_categories @ [''other''])"
proof -
  have s1: "strip ''  Silver '' = ''Silver''" by code_simp
  have s2: "strip ''silver'' = ''silver''" by code_simp
  show ?thesis
    using normalize_category_total[of "Some ''Decorative Art''" "''  Silver ''"]
      normalize_category_total[of None "''silver''"]
    by (simp add: s1 s2)
qed

subsection \<open>Price parsing\<close>

lemma py_float_error: "py_float s = Inl e \<Longrightarrow> e = ValueError"
  by (auto simp: py_float_def Let_def split: list.splits if_splits)

lemma parse_price_value_Inr: "\<exists>r. parse_price_value t = Inr r"
  using py_float_error
  by (auto simp: parse_price_value_def Let_def split: option.splits sum.splits py_error.splits)

lemma price_match_None:
  "\<forall>c\<in>set s. \<not> is_price_char c \<Longrightarrow> price_match (lower s) = None"
  by (simp add: price_match_def lower_def is_price_char_lower)

lemma parse_price_value_no_price_char:
  "\<forall>c\<in>set s. \<not> is_price_char c \<Longrightarrow> parse_price_value (Some s) = Inr None"
  by (simp add: parse_price_value_def Let_def price_match_None)

lemma parse_price_value_parse_failure:
  "price_match (lower s) = Some m \<Longrightarrow> py_float (remove_commas m) = Inl e \<Longrightarrow>
   parse_price_value (Some s) = Inr None"
  using py_float_error[of "remove_commas m" e]
  by (auto simp: parse_price_value_def Let_def)

text \<open>
  C4. \<open>parse_price_value\<close> returns for every missing or present text, and never leaves
  by an exception. The pound price \<open>1,250.00\<close> gives 1250; \<open>POA\<close>, \<open>Price on application\<close>,
  the empty text, the missing text and \<open>contact for price\<close> give \<open>None\<close>; a text with no
  digit, comma or point gives \<open>None\<close>; and when \<open>float\<close> raises on the matched run the
  result is \<open>None\<close> as well.
\<close>

theorem parse_price_value_total:
  "(\<exists>r. parse_price_value t = Inr r)
   \<and> parse_price_value (Some (CHR 0xA3 # ''1,250.00'')) = Inr (Some (Float 1250))
   \<and> parse_price_value (Some ''POA'') = Inr None
   \<and> parse_price_value (Some ''Price on application'') = Inr None
   \<and> parse_price_value (Some []) = Inr None
   \<and> parse_price_value None = Inr None
   \<and> parse_price_value (Some ''contact for price'') = Inr None
   \<and> ((\<forall>c\<in>set s. \<not> is_price_char c) \<longrightarrow> parse_price_value (Some s) = Inr None)
   \<and> (price_match (lower s') = Some m \<and> py_float (remove_commas m) = Inl e
        \<longrightarrow> parse_price_value (Some s') = Inr None)"
proof -
  have "parse_price_value (Some (CHR 0xA3 # ''1,250.00'')) = Inr (Some (Float 1250))"
  proof -
    have l: "lower (CHR 0xA3 # ''1,250.00'') = CHR 0xA3 # ''1,250.00''"
      by code_simp
    have c: "\<not> contains (CHR 0xA3 # ''1,250.00'') ''poa''"
      by code_simp
    have m: "price_match (CHR 0xA3 # ''1,250.00'') = Some ''1,250.00''"
      by code_simp
    have r: "remove_commas ''1,250.00'' = ''1250.00''"
      by code_simp
    have f: "py_float ''1250.00'' = Inr (Float 1250)"
      by (simp add: py_float_def isdigit_def digits_val_def round_to_double_def
          floor_log_def digit_count.simps scale_def round_half_even_def Let_def)
    show ?thesis
      by (simp add: parse_price_value_def l c m r f)
  qed
  moreover have "parse_price_value (Some ''POA'') = Inr None"
    by code_simp
  moreover have "parse_price_value (Some ''Price on application'') = Inr None"
    by code_simp
  moreover have "parse_price_value (Some []) = Inr None"
    by (simp add: parse_price_value_def)
  moreover have "parse_price_value None = Inr None"
    by (simp add: parse_price_value_def)
  moreover have "parse_price_value (Some ''contact for price'') = Inr None"
    by code_simp
  ultimately show ?thesis
    using parse_price_value_Inr[of t] parse_price_value_no_price_char[of s]
      parse_price_value_parse_failure[of s' m e]
    by blast
qed

theorem parse_price_value_total_witness:
  "parse_price_value (Some ''enquire within'') = Inr None
   \<and> parse_price_value (Some ''1.2.3 each'') = Inr None"
proof -
  have h1: "\<forall>c\<in>set ''enquire within''. \<not> is_price_char c"
    by (simp add: is_price_char_def isdigit_def)
  have h2: "price_match (lower ''1.2.3 each'') = Some ''1.2.3''"
    by code_simp
  have h3: "py_float (remove_commas ''1.2.3'') = Inl ValueError"
    by code_simp
  show ?thesis
    using parse_price_value_total[of None "''enquire within''" "''1.2.3 each''" "''1.2.3''" ValueError]
      h1 h2 h3
    by blast
qed

subsection \<open>Description cleaning\<close>

lemma single_spaced_nonspace: "\<not> isspace c \<Longrightarrow> single_spaced (c # xs) = single_spaced xs"
  by (cases xs) simp_all

lemma single_spaced_space:
  "single_spaced (CHR '' '' # xs) =
     (case xs of [] \<Rightarrow> True | d # ds \<Rightarrow> \<not> isspace d \<and> single_spaced xs)"
  by (cases xs) (simp_all add: isspace_space)

lemma single_spaced_collapse: "single_spaced (collapse_ws s)"
proof (induction s rule: collapse_ws.induct)
  case 1
  show ?case by simp
next
  case (2 c cs)
  show ?case
  proof (cases "isspace c")
    case True
    show ?thesis
    proof (cases "dropWhile isspace cs")
      case Nil
      show ?thesis by (simp add: True Nil isspace_space)
    next
      case (Cons d ds)
      then have d: "\<not> isspace d"
        using hd_dropWhile[of isspace cs] by auto
      from 2(1)[OF True] Cons d show ?thesis
        using True by (simp add: single_spaced_space)
    qed
  next
    case False
    with 2(2) show ?thesis by (simp add: single_spaced_nonspace)
  qed
qed

lemma collapse_single_spaced: "single_spaced xs \<Longrightarrow> collapse_ws xs = xs"
  by (induction xs rule: single_spaced.induct) auto

lemma single_spaced_tl: "single_spaced (x # xs) \<Longrightarrow> single_spaced xs"
  by (cases xs) auto

lemma single_spaced_dropWhile: "single_spaced xs \<Longrightarrow> single_spaced (dropWhile P xs)"
  by (induction xs) (auto dest: single_spaced_tl)

lemma single_spaced_rstrip: "single_spaced xs \<Longrightarrow> single_spaced (rstrip xs)"
proof (induction xs rule: single_spaced.induct)
  case 1
  then show ?case by (simp add: rstrip_Nil)
next
  case (2 c)
  then show ?case by (simp add: rstrip_Cons rstrip_Nil)
next
  case (3 c d cs)
  then show ?case
    by (cases "rstrip (d # cs)")
      (auto simp: rstrip_Cons[of c] split: if_splits simp: rstrip_Cons[of d])
qed

lemma single_spaced_strip: "single_spaced xs \<Longrightarrow> single_spaced (strip xs)"
  by (simp add: strip_def lstrip_def single_spaced_rstrip single_spaced_dropWhile)

lemma clean_description_idem:
  assumes "clean_description t = Some d"
  shows "clean_description (Some d) = Some d"
proof -
  from assms obtain s where s: "d = strip (collapse_ws s)" and len: "20 \<le> length d"
    by (auto simp: clean_description_def Let_def split: option.splits if_splits)
  have "single_spaced d"
    unfolding s by (rule single_spaced_strip[OF single_spaced_collapse])
  then have "collapse_ws d = d" by (rule collapse_single_spaced)
  moreover have "strip d = d" unfolding s by (rule strip_idem)
  moreover have "d \<noteq> []" using len by auto
  ultimately show ?thesis using len
    by (simp add: clean_description_def Let_def)
qed

subsection \<open>Running the normalizer on its own output\<close>

text \<open>
  The value of a digit string, and the digits \<open>show_int\<close> writes.
\<close>

lemma digits_val_foldl:
  "foldl (\<lambda>a c. 10 * a + (of_char c - 48)) a ds = a * 10 ^ length ds + digits_val ds"
proof -
  define f :: "int \<Rightarrow> char \<Rightarrow> int" where "f = (\<lambda>a c. 10 * a + (of_char c - 48))"
  have "foldl f a ds = a * 10 ^ length ds + foldl f 0 ds"
  proof (induction ds arbitrary: a)
    case Nil
    show ?case by simp
  next
    case (Cons d ds)
    have "foldl f (f a d) ds = f a d * 10 ^ length ds + foldl f 0 ds"
      by (rule Cons)
    moreover have "foldl f (f 0 d) ds = f 0 d * 10 ^ length ds + foldl f 0 ds"
      by (rule Cons)
    moreover have "f a d = 10 * a + f 0 d"
      by (simp add: f_def)
    ultimately show ?case
      by (simp add: algebra_simps)
  qed
  then show ?thesis
    by (simp add: f_def digits_val_def)
qed

lemma digits_val_append:
  "digits_val (xs @ ys) = digits_val xs * 10 ^ length ys + digits_val ys"
  using digits_val_foldl[of "digits_val xs" ys] by (simp add: digits_val_def)

lemma digits_val_zeros: "digits_val (replicate n CHR ''0'') = 0"
  by (induction n) (simp_all add: digits_val_def)

lemma digits_val_Nil: "digits_val [] = 0"
  by (simp add: digits_val_def)

lemma digit_char:
  assumes "0 \<le> d" "d < 10"
  shows "isdigit (char_of (48 + d :: int))" "(of_char (char_of (48 + d :: int)) :: int) = 48 + d"
proof -
  have m: "(48 + d) mod 256 = 48 + d" using assms by simp
  show i: "(of_char (char_of (48 + d :: int)) :: int) = 48 + d"
    using m by simp
  have "int (of_char (char_of (48 + d :: int))) = 48 + d"
    using i by (simp only: of_nat_of_char)
  then have "48 \<le> (of_char (char_of (48 + d :: int)) :: nat)
      \<and> (of_char (char_of (48 + d :: int)) :: nat) \<le> 57"
    using assms by linarith
  then show "isdigit (char_of (48 + d :: int))"
    by (simp add: isdigit_def)
qed

lemma digits_val_single: "0 \<le> d \<Longrightarrow> d < 10 \<Longrightarrow> digits_val [char_of (48 + d :: int)] = d"
  by (simp add: digits_val_def digit_char)

lemma show_int_props:
  "0 \<le> n \<Longrightarrow> list_all isdigit (show_int n) \<and> show_int n \<noteq> [] \<and> digits_val (show_int n) = n"
proof (induction n rule: show_int.induct)
  case (1 n)
  show ?case
  proof (cases "n < 10")
    case True
    with "1.prems" show ?thesis
      by (subst (1 2 3) show_int.simps) (simp add: digit_char digits_val_single)
  next
    case False
    then have "0 \<le> n div 10" by simp
    from "1.IH"[OF False this]
    have ih: "list_all isdigit (show_int (n div 10))" "digits_val (show_int (n div 10)) = n div 10"
      by simp_all
    have d: "0 \<le> n mod 10" "n mod 10 < 10" by simp_all
    have s: "show_int n = show_int (n div 10) @ [char_of (48 + n mod 10)]"
      using False by (subst show_int.simps) simp
    show ?thesis
      unfolding s using ih d
      by (simp add: digit_char digits_val_append digits_val_single)
  qed
qed

text \<open>
  \<open>parse_price_value\<close> on a plain decimal text (one digit or more, a point, digits): the
  text is its own lower-case form, holds no \<open>poa\<close>, is matched as a whole, and \<open>float\<close>
  rounds the number it denotes.
\<close>

lemma plain_decimal_chars:
  assumes "list_all isdigit ip" "list_all isdigit fp"
  shows "\<forall>c\<in>set (ip @ CHR ''.'' # fp). isdigit c \<or> c = CHR ''.''"
  using assms by (auto simp: list_all_iff)

lemma parse_price_value_plain_decimal:
  assumes ip: "ip \<noteq> []" "list_all isdigit ip" and fp: "list_all isdigit fp"
  shows "parse_price_value (Some (ip @ ''.'' @ fp)) =
           Inr (Some (round_to_double (of_int (digits_val (ip @ fp)) / 10 ^ length fp)))"
proof -
  let ?t = "ip @ CHR ''.'' # fp"
  have chars: "\<forall>c\<in>set ?t. isdigit c \<or> c = CHR ''.''"
    using ip(2) fp by (rule plain_decimal_chars)
  have all: "\<forall>c\<in>set ?t. is_price_char c"
    using chars by (auto simp: is_price_char_def)
  have low: "lower ?t = ?t"
    unfolding lower_def
  proof (rule map_idI)
    fix c assume "c \<in> set ?t"
    with all have "is_price_char c" by blast
    then show "lower_char c = c" by (rule is_price_char_lower_id)
  qed
  have "CHR ''p'' \<notin> set ?t"
    using chars by (auto dest: isdigit_not_p)
  then have poa: "\<not> contains ?t ''poa''"
    by (auto dest: contains_hd_in_set)
  obtain d ds where d: "ip = d # ds" using ip by (cases ip) auto
  have pm: "price_match ?t = Some ?t"
  proof -
    have "is_price_char d" using all d by simp
    then have "dropWhile (\<lambda>c. \<not> is_price_char c) ?t = ?t"
      by (simp add: d)
    moreover have "takeWhile is_price_char ?t = ?t"
      using all by (simp only: takeWhile_eq_all_conv)
    ultimately show ?thesis
      by (simp add: price_match_def Let_def d)
  qed
  have rc: "remove_commas ?t = ?t"
    unfolding remove_commas_def using chars
    by (simp only: filter_id_conv) (auto dest: isdigit_not_comma)
  have tw: "takeWhile isdigit ?t = ip"
    using ip(2) by (simp add: list_all_iff not_isdigit_point)
  have dw: "dropWhile isdigit ?t = CHR ''.'' # fp"
    using ip(2) by (simp add: list_all_iff not_isdigit_point)
  have pf: "py_float ?t =
      Inr (round_to_double (of_int (digits_val (ip @ fp)) / 10 ^ length fp))"
    unfolding py_float_def Let_def tw dw using fp ip(1) by simp
  show ?thesis
    using poa by (simp add: parse_price_value_def Let_def low pm rc pf)
qed


text \<open>
  The digits chosen for a float denote a number that rounds to that float.
\<close>

lemma scale_Suc: "scale 10 (x + 1) = 10 * scale 10 x"
proof -
  consider "0 \<le> x" | "x = - 1" | "x < - 1" by linarith
  then show ?thesis
  proof cases
    case 1
    then show ?thesis by (simp add: scale_def nat_add_distrib)
  next
    case 2
    then show ?thesis by (simp add: scale_def)
  next
    case 3
    then have "nat (- x) = Suc (nat (- x - 1))" by simp
    then show ?thesis using 3 by (simp add: scale_def)
  qed
qed

lemma scale_nonneg: "0 \<le> x \<Longrightarrow> scale 10 x = 10 ^ nat x"
  by (simp add: scale_def)

lemma scale_neg: "x < 0 \<Longrightarrow> scale 10 x = 1 / 10 ^ nat (- x)"
  by (simp add: scale_def)

lemma scale_pos: "0 < scale 10 x"
  by (simp add: scale_def)

lemma strip_zeros_value:
  "strip_zeros c x = (D, x') \<Longrightarrow>
   of_int D * scale 10 x' = of_int c * scale 10 x \<and> (0 \<le> c \<longrightarrow> 0 \<le> D)"
proof (induction c x rule: strip_zeros.induct)
  case (1 c x)
  show ?case
  proof (cases "c \<noteq> 0 \<and> c mod 10 = 0")
    case True
    then have s: "strip_zeros c x = strip_zeros (c div 10) (x + 1)"
      by (subst strip_zeros.simps) simp
    from True have c: "c = 10 * (c div 10)" by auto
    from "1.IH"[OF True] "1.prems" s
    have ih: "of_int D * scale 10 x' = of_int (c div 10) * scale 10 (x + 1)"
      "0 \<le> c div 10 \<longrightarrow> 0 \<le> D"
      by simp_all
    have "(of_int (c div 10) :: rat) * scale 10 (x + 1) = of_int (10 * (c div 10)) * scale 10 x"
      by (simp add: scale_Suc)
    with ih c show ?thesis by (simp add: pos_imp_zdiv_nonneg_iff)
  next
    case False
    then have "strip_zeros c x = (c, x)"
      by (subst strip_zeros.simps) auto
    with "1.prems" show ?thesis by simp
  qed
qed

lemma first_some_Some: "first_some f xs = Some y \<Longrightarrow> \<exists>x\<in>set xs. f x = Some y"
  by (induction xs) (auto split: option.splits)

lemma digits_at_Some:
  assumes "digits_at v p = Some (D, x)" "0 < v"
  shows "round_to_double (of_int D * scale 10 x) = Float v \<and> 0 \<le> D"
proof -
  define x0 where "x0 = floor_log 10 v - int p + 1"
  define lo where "lo = \<lfloor>v / scale 10 x0\<rfloor>"
  have lo: "0 \<le> lo"
    unfolding lo_def using assms(2) scale_pos[of x0] by simp
  from assms(1) obtain c where c: "strip_zeros c x0 = (D, x)"
    "round_to_double (of_int c * scale 10 x0) = Float v" "c = lo \<or> c = lo + 1"
    unfolding digits_at_def Let_def x0_def[symmetric] lo_def[symmetric]
    by (auto split: if_splits)
  from strip_zeros_value[OF c(1)] c(2) c(3) lo show ?thesis by auto
qed

lemma shortest_digits_Some:
  assumes "shortest_digits v = Some (D, x)" "0 < v"
  shows "round_to_double (of_int D * scale 10 x) = Float v \<and> 0 \<le> D"
proof -
  from first_some_Some[OF assms(1)[unfolded shortest_digits_def]]
  obtain p where "digits_at v p = Some (D, x)" by blast
  then show ?thesis using assms(2) by (rule digits_at_Some)
qed

text \<open>
  The number denoted by the text \<open>positional\<close> lays out.
\<close>

lemma isdigit_zero: "isdigit CHR ''0''"
  by (simp add: isdigit_def)

lemma digits_val_Cons:
  "digits_val (c # cs) = (of_char c - 48) * 10 ^ length cs + digits_val cs"
  using digits_val_append[of "[c]" cs] by (simp add: digits_val_def)

lemma digits_val_zero_Cons: "digits_val (CHR ''0'' # cs) = digits_val cs"
  by (simp add: digits_val_Cons)

lemma positional_value:
  assumes ds: "list_all isdigit ds" "ds \<noteq> []"
  shows "\<exists>ip fp. positional ds decpt = ip @ ''.'' @ fp \<and> ip \<noteq> [] \<and>
           list_all isdigit ip \<and> list_all isdigit fp \<and>
           (of_int (digits_val (ip @ fp)) :: rat) / 10 ^ length fp
             = of_int (digits_val ds) * scale 10 (decpt - int (length ds))"
proof -
  consider "decpt \<le> 0" | "0 < decpt" "int (length ds) \<le> decpt"
    | "0 < decpt" "decpt < int (length ds)" by linarith
  then show ?thesis
  proof cases
    case 1
    let ?n = "nat (- decpt)"
    let ?fp = "replicate ?n CHR ''0'' @ ds"
    have p: "positional ds decpt = ''0'' @ ''.'' @ ?fp"
      using 1 by (simp add: positional_def)
    have v: "digits_val (''0'' @ ?fp) = digits_val ds"
      by (simp add: digits_val_zero_Cons digits_val_append digits_val_zeros)
    have "nat (- (decpt - int (length ds))) = ?n + length ds"
      using 1 by simp
    moreover have "decpt - int (length ds) < 0"
    proof -
      have "0 < length ds" using ds(2) by simp
      then show ?thesis using 1 by linarith
    qed
    ultimately have s: "scale 10 (decpt - int (length ds)) = 1 / 10 ^ (?n + length ds)"
      by (simp add: scale_neg)
    have "(of_int (digits_val (''0'' @ ?fp)) :: rat) / 10 ^ length ?fp
             = of_int (digits_val ds) * scale 10 (decpt - int (length ds))"
      unfolding v s by simp
    moreover have "list_all isdigit ''0''" "list_all isdigit ?fp" "''0'' \<noteq> []"
      using ds(1) by (auto simp: isdigit_zero list_all_iff)
    ultimately show ?thesis using p by blast
  next
    case 2
    let ?j = "nat decpt - length ds"
    let ?ip = "ds @ replicate ?j CHR ''0''"
    have p: "positional ds decpt = ?ip @ ''.'' @ ''0''"
      using 2 by (simp add: positional_def)
    have v: "digits_val (?ip @ ''0'') = digits_val ds * 10 ^ ?j * 10"
      by (simp add: digits_val_append digits_val_zeros digits_val_zero_Cons digits_val_Nil)
    have "nat (decpt - int (length ds)) = ?j"
      using 2 by simp
    then have s: "scale 10 (decpt - int (length ds)) = 10 ^ ?j"
      using 2 by (simp add: scale_nonneg)
    have "(of_int (digits_val (?ip @ ''0'')) :: rat) / 10 ^ length ''0''
             = of_int (digits_val ds) * scale 10 (decpt - int (length ds))"
      unfolding v s by simp
    moreover have "list_all isdigit ?ip" "list_all isdigit ''0''" "?ip \<noteq> []"
      using ds by (auto simp: isdigit_zero list_all_iff)
    ultimately show ?thesis using p by blast
  next
    case 3
    let ?k = "nat decpt"
    let ?ip = "take ?k ds" and ?fp = "drop ?k ds"
    have p: "positional ds decpt = ?ip @ ''.'' @ ?fp"
      using 3 by (simp add: positional_def)
    have "nat (- (decpt - int (length ds))) = length ds - ?k"
      using 3 by simp
    moreover have "decpt - int (length ds) < 0" using 3 by simp
    ultimately have s: "scale 10 (decpt - int (length ds)) = 1 / 10 ^ (length ds - ?k)"
      by (simp add: scale_neg)
    have "(of_int (digits_val (?ip @ ?fp)) :: rat) / 10 ^ length ?fp
             = of_int (digits_val ds) * scale 10 (decpt - int (length ds))"
      unfolding s by simp
    moreover have "list_all isdigit ?ip" "list_all isdigit ?fp"
      using ds(1) by (auto simp: list_all_iff dest: in_set_takeD in_set_dropD)
    moreover have "?ip \<noteq> []" using 3 ds(2) by simp
    ultimately show ?thesis using p by blast
  qed
qed


text \<open>
  Reading back the textual form of a float: a form holding digits and points only is a
  positional one, and the number it denotes rounds to the float it was written from.
\<close>

lemma exponential_has_e: "CHR ''e'' \<in> set (exponential ds decpt)"
  by (simp add: exponential_def Let_def)

lemma not_isdigit_letters:
  "\<not> isdigit CHR ''e''" "\<not> isdigit CHR ''i''" "\<not> isdigit CHR ''-''"
  by (simp_all add: isdigit_def)

lemma round_to_double_zero: "round_to_double 0 = Float 0"
  by (simp add: round_to_double_def)

lemma float_repr_roundtrip:
  assumes r: "float_repr f = Some s" and plain: "\<forall>c\<in>set s. isdigit c \<or> c = CHR ''.''"
  shows "parse_price_value (Some s) = Inr (Some f)"
proof (cases f)
  case Inf
  with r have "s = ''inf''" by (simp add: float_repr_def)
  with plain show ?thesis by (simp add: not_isdigit_letters)
next
  case (Float v)
  consider "v = 0" | "v < 0" | "0 < v" by linarith
  then show ?thesis
  proof cases
    case 1
    with r Float have s: "s = ''0'' @ ''.'' @ ''0''" by (simp add: float_repr_def)
    have "parse_price_value (Some (''0'' @ ''.'' @ ''0'')) =
        Inr (Some (round_to_double (of_int (digits_val (''0'' @ ''0'')) / 10 ^ length ''0'')))"
      by (rule parse_price_value_plain_decimal) (simp_all add: isdigit_zero)
    then show ?thesis
      unfolding s using 1 Float
      by (simp add: digits_val_zero_Cons digits_val_Nil round_to_double_zero)
  next
    case 2
    with r Float obtain s' where "s = ''-'' @ s'"
      by (auto simp: float_repr_def)
    with plain show ?thesis by (simp add: not_isdigit_letters)
  next
    case 3
    with r Float have rp: "repr_positive v = Some s" by (simp add: float_repr_def)
    then obtain D x where sd: "shortest_digits v = Some (D, x)"
      and s: "s = (if int (length (show_int D)) + x \<le> - 4 \<or> 16 < int (length (show_int D)) + x
                   then exponential (show_int D) (int (length (show_int D)) + x)
                   else positional (show_int D) (int (length (show_int D)) + x))"
      by (auto simp: repr_positive_def Let_def split: option.splits)
    from shortest_digits_Some[OF sd 3]
    have rt: "round_to_double (of_int D * scale 10 x) = Float v" and D: "0 \<le> D" by simp_all
    let ?ds = "show_int D"
    let ?decpt = "int (length ?ds) + x"
    from show_int_props[OF D]
    have ds: "list_all isdigit ?ds" "?ds \<noteq> []" "digits_val ?ds = D" by simp_all
    have pos: "s = positional ?ds ?decpt"
    proof (rule ccontr)
      assume "s \<noteq> positional ?ds ?decpt"
      with s have "s = exponential ?ds ?decpt" by (simp split: if_splits)
      then have "CHR ''e'' \<in> set s" by (simp add: exponential_has_e)
      with plain show False by (auto simp: not_isdigit_letters)
    qed
    from positional_value[OF ds(1,2), of ?decpt] obtain ip fp where
      f: "positional ?ds ?decpt = ip @ ''.'' @ fp" "ip \<noteq> []" "list_all isdigit ip"
        "list_all isdigit fp"
        "(of_int (digits_val (ip @ fp)) :: rat) / 10 ^ length fp
           = of_int (digits_val ?ds) * scale 10 (?decpt - int (length ?ds))"
      by blast
    have "parse_price_value (Some (ip @ ''.'' @ fp)) =
        Inr (Some (round_to_double (of_int (digits_val (ip @ fp)) / 10 ^ length fp)))"
      using f(2,3,4) by (rule parse_price_value_plain_decimal)
    then show ?thesis
      unfolding pos f(1) f(5) ds(3) using rt Float by simp
  qed
qed

text \<open>
  The floats \<open>1e16\<close> and \<open>1250.0\<close>, their textual forms, and what \<open>parse_price_value\<close>
  makes of the form \<open>1e+16\<close>: the pattern matches the leading \<open>1\<close> only.
\<close>

lemmas float_eval = round_to_double_def floor_log_def digit_count.simps scale_def
  round_half_even_def Let_def

lemma strip_zeros_stop: "c = 0 \<or> c mod 10 \<noteq> 0 \<Longrightarrow> strip_zeros c x = (c, x)"
  by (subst strip_zeros.simps) auto

lemma precisions: "[1..<18] = [1, 2, 3, 4, 5, 6, 7, 8, 9, 10, 11, 12, 13, 14, 15, 16, 17]"
  by (simp add: upt_conv_Cons)

lemma digits_at_1e16: "digits_at 10000000000000000 1 = Some (1, 16)"
proof -
  have x: "floor_log 10 10000000000000000 - int 1 + 1 = 16" by (simp add: float_eval)
  have s: "scale 10 16 = 10000000000000000" by (simp add: scale_def)
  have lo: "round_to_double 10000000000000000 = Float 10000000000000000"
    by (simp add: float_eval)
  have hi: "round_to_double 20000000000000000 \<noteq> Float 10000000000000000"
    by (simp add: float_eval)
  have z: "strip_zeros 1 16 = (1, 16)" by (simp add: strip_zeros_stop)
  show ?thesis
    unfolding digits_at_def x s Let_def by (simp add: lo hi z)
qed

lemma shortest_digits_1e16: "shortest_digits 10000000000000000 = Some (1, 16)"
  unfolding shortest_digits_def precisions
  by (simp only: first_some.simps digits_at_1e16 option.case)

lemma float_repr_1e16: "float_repr (Float 10000000000000000) = Some ''1e+16''"
proof -
  have a: "show_int 1 = ''1''" by code_simp
  have b: "show_int 16 = ''16''" by code_simp
  show ?thesis
    by (simp add: float_repr_def repr_positive_def shortest_digits_1e16 a b exponential_def
        Let_def)
qed

lemma parse_price_value_1e16:
  "parse_price_value (Some ''10000000000000000'') = Inr (Some (Float 10000000000000000))"
proof -
  have l: "lower ''10000000000000000'' = ''10000000000000000''" by code_simp
  have c: "\<not> contains ''10000000000000000'' ''poa''" by code_simp
  have m: "price_match ''10000000000000000'' = Some ''10000000000000000''" by code_simp
  have r: "remove_commas ''10000000000000000'' = ''10000000000000000''" by code_simp
  have f: "py_float ''10000000000000000'' = Inr (Float 10000000000000000)"
    by (simp add: py_float_def isdigit_def digits_val_def float_eval)
  show ?thesis by (simp add: parse_price_value_def l c m r f)
qed

lemma parse_price_value_exponent_form:
  "parse_price_value (Some ''1e+16'') = Inr (Some (Float 1))"
proof -
  have l: "lower ''1e+16'' = ''1e+16''" by code_simp
  have c: "\<not> contains ''1e+16'' ''poa''" by code_simp
  have m: "price_match ''1e+16'' = Some ''1''" by code_simp
  have r: "remove_commas ''1'' = ''1''" by code_simp
  have f: "py_float ''1'' = Inr (Float 1)"
    by (simp add: py_float_def isdigit_def digits_val_def float_eval)
  show ?thesis by (simp add: parse_price_value_def l c m r f)
qed

lemma digits_at_1250_1: "digits_at 1250 1 = None"
proof -
  have x: "floor_log 10 1250 - int 1 + 1 = 3" by (simp add: float_eval)
  have s: "scale 10 3 = 1000" by (simp add: scale_def)
  have lo: "round_to_double 1000 \<noteq> Float 1250" by (simp add: float_eval)
  have hi: "round_to_double 2000 \<noteq> Float 1250" by (simp add: float_eval)
  have f: "\<lfloor>1250 / 1000 :: rat\<rfloor> = 1" by (simp add: floor_eq_iff)
  show ?thesis
    unfolding digits_at_def x s Let_def f by (simp add: lo hi)
qed

lemma digits_at_1250_2: "digits_at 1250 2 = None"
proof -
  have x: "floor_log 10 1250 - int 2 + 1 = 2" by (simp add: float_eval)
  have s: "scale 10 2 = 100" by (simp add: scale_def)
  have lo: "round_to_double 1200 \<noteq> Float 1250" by (simp add: float_eval)
  have hi: "round_to_double 1300 \<noteq> Float 1250" by (simp add: float_eval)
  have f: "\<lfloor>1250 / 100 :: rat\<rfloor> = 12" by (simp add: floor_eq_iff)
  show ?thesis
    unfolding digits_at_def x s Let_def f by (simp add: lo hi)
qed

lemma digits_at_1250_3: "digits_at 1250 3 = Some (125, 1)"
proof -
  have x: "floor_log 10 1250 - int 3 + 1 = 1" by (simp add: float_eval)
  have s: "scale 10 1 = 10" by (simp add: scale_def)
  have lo: "round_to_double 1250 = Float 1250" by (simp add: float_eval)
  have hi: "round_to_double 1260 \<noteq> Float 1250" by (simp add: float_eval)
  have z: "strip_zeros 125 1 = (125, 1)" by (simp add: strip_zeros_stop)
  show ?thesis
    unfolding digits_at_def x s Let_def by (simp add: lo hi z)
qed

lemma shortest_digits_1250: "shortest_digits 1250 = Some (125, 1)"
  unfolding shortest_digits_def precisions
  by (simp only: first_some.simps digits_at_1250_1 digits_at_1250_2 digits_at_1250_3
      option.case)

lemma float_repr_1250: "float_repr (Float 1250) = Some ''1250.0''"
proof -
  have a: "show_int 125 = ''125''" by code_simp
  show ?thesis
    by (simp add: float_repr_def repr_positive_def shortest_digits_1250 a positional_def
        Let_def)
qed

lemma normalize_category_twice:
  "normalize_category (Some (normalize_category c)) = ''other''"
proof -
  have strips: "strip ''furniture'' = ''furniture''" "strip ''ceramics'' = ''ceramics''"
    "strip ''decorative_art'' = ''decorative_art''" "strip ''silver'' = ''silver''"
    "strip ''jewellery'' = ''jewellery''" "strip ''lighting'' = ''lighting''"
    "strip ''other'' = ''other''"
    by code_simp+
  have "normalize_category c \<in> set (canonical_categories @ [''other''])"
    by (rule normalize_category_range)
  then show ?thesis
    by (auto simp: canonical_categories_def normalize_category_cases strips)
qed

text \<open>
  C1, as the claim states it, fails on two of its three fields. On the category:
  \<open>normalize_category\<close> maps the label \<open>Furniture\<close> to \<open>furniture\<close>, and its own output
  \<open>furniture\<close> to \<open>other\<close>, because the keys of the lookup table are the capitalised
  display names. On the price: the text \<open>10000000000000000\<close> is parsed to the float
  \<open>1e16\<close>, whose textual form is \<open>1e+16\<close>, and \<open>parse_price_value\<close> of that form is \<open>1.0\<close>,
  because the pattern \<open>[\d,.]+\<close> stops at the letter \<open>e\<close>.
\<close>

theorem normalizer_not_idempotent:
  "normalize_category (Some ''Furniture'') = ''furniture''
   \<and> normalize_category (Some (normalize_category (Some ''Furniture''))) = ''other''
   \<and> normalize_category (Some (normalize_category (Some ''Furniture'')))
       \<noteq> normalize_category (Some ''Furniture'')
   \<and> parse_price_value (Some ''10000000000000000'') = Inr (Some (Float 10000000000000000))
   \<and> float_repr (Float 10000000000000000) = Some ''1e+16''
   \<and> parse_price_value (Some ''1e+16'') = Inr (Some (Float 1))
   \<and> parse_price_value (Some ''1e+16'') \<noteq> parse_price_value (Some ''10000000000000000'')"
proof -
  have 1: "normalize_category (Some ''Furniture'') = ''furniture''" by code_simp
  have 2: "normalize_category (Some ''furniture'') = ''other''" by code_simp
  show ?thesis
    by (simp add: 1 2 parse_price_value_1e16 float_repr_1e16 parse_price_value_exponent_form)
qed

text \<open>
  C1, amended. \<open>clean_description\<close> returns each of its outputs that is not \<open>None\<close>
  unchanged. For every float \<open>f\<close>, so for every value \<open>parse_price_value\<close> has returned:
  when the textual form of \<open>f\<close> holds digits and points only (it has no exponent, and is
  not \<open>inf\<close>), \<open>parse_price_value\<close> of that form returns \<open>f\<close> again. \<open>normalize_category\<close>
  maps every one of its own outputs to \<open>other\<close>: it reproduces the fallback only, not a
  canonical identifier.
\<close>

theorem normalizer_on_own_output:
  "(clean_description t = Some d \<longrightarrow> clean_description (Some d) = Some d)
   \<and> (float_repr f = Some s \<and> (\<forall>c\<in>set s. isdigit c \<or> c = CHR ''.'') \<longrightarrow>
        parse_price_value (Some s) = Inr (Some f))
   \<and> normalize_category (Some (normalize_category c)) = ''other''"
  using clean_description_idem[of t d] float_repr_roundtrip[of f s]
    normalize_category_twice[of c]
  by blast

theorem normalizer_on_own_output_witness:
  "clean_description (Some ''  Georgian   oak  chest of drawers '')
     = Some ''Georgian oak chest of drawers''
   \<and> clean_description (Some ''Georgian oak chest of drawers'')
     = Some ''Georgian oak chest of drawers''
   \<and> float_repr (Float 1250) = Some ''1250.0''
   \<and> parse_price_value (Some ''1250.0'') = Inr (Some (Float 1250))
   \<and> normalize_category (Some (normalize_category (Some ''Silver''))) = ''other''"
proof -
  have h1: "clean_description (Some ''  Georgian   oak  chest of drawers '')
              = Some ''Georgian oak chest of drawers''"
    by code_simp
  have h2: "float_repr (Float 1250) = Some ''1250.0''"
    by (rule float_repr_1250)
  have h3: "\<forall>c\<in>set ''1250.0''. isdigit c \<or> c = CHR ''.''"
    by (simp add: isdigit_def)
  note inst = normalizer_on_own_output[of "Some ''  Georgian   oak  chest of drawers ''"
      "''Georgian oak chest of drawers''" "Float 1250" "''1250.0''" "Some ''Silver''"]
  from inst h1 have a: "clean_description (Some ''Georgian oak chest of drawers'')
      = Some ''Georgian oak chest of drawers''"
    by blast
  from inst h2 h3 have b: "parse_price_value (Some ''1250.0'') = Inr (Some (Float 1250))"
    by blast
  from inst have c: "normalize_category (Some (normalize_category (Some ''Silver''))) = ''other''"
    by blast
  show ?thesis
    using h1 a h2 b c by (intro conjI)
qed

subsection \<open>Deduplication\<close>

lemma cleaned_record_Inr: "\<exists>r. cleaned_record item = Inr r"
  using parse_price_value_Inr[of "listed_price item"]
  by (auto simp: cleaned_record_def)

lemma main_loop_first_by:
  "\<exists>rs. main_loop items (cl, seen) = Inr (cl @ rs, seen \<union> build_dedupe_key ` set items)
        \<and> map Inr rs = map cleaned_record (first_by build_dedupe_key seen items)"
proof (induction items arbitrary: cl seen)
  case Nil
  then show ?case by simp
next
  case (Cons x xs)
  show ?case
  proof (cases "build_dedupe_key x \<in> seen")
    case True
    with Cons[of cl seen] show ?thesis by (auto simp: insert_absorb)
  next
    case False
    obtain r where r: "cleaned_record x = Inr r"
      using cleaned_record_Inr by blast
    from Cons[of "cl @ [r]" "insert (build_dedupe_key x) seen"]
    obtain rs where "main_loop xs (cl @ [r], insert (build_dedupe_key x) seen) =
        Inr ((cl @ [r]) @ rs, insert (build_dedupe_key x) seen \<union> build_dedupe_key ` set xs)"
      and "map Inr rs = map cleaned_record (first_by build_dedupe_key (insert (build_dedupe_key x) seen) xs)"
      by blast
    then show ?thesis using False r
      by (intro exI[of _ "r # rs"]) (simp add: Let_def)
  qed
qed

lemma first_by_index:
  "first_by key seen xs =
     map (\<lambda>j. xs ! j)
       (filter (\<lambda>j. key (xs ! j) \<notin> seen \<union> key ` set (take j xs)) [0..<length xs])"
proof (induction xs arbitrary: seen)
  case Nil
  show ?case by simp
next
  case (Cons x xs)
  have upt: "[0..<length (x # xs)] = 0 # map Suc [0..<length xs]"
    by (simp add: upt_conv_Cons map_Suc_upt del: upt_Suc)
  show ?case
  proof (cases "key x \<in> seen")
    case True
    then have "\<And>k Q. (k \<notin> seen \<and> k \<noteq> key x \<and> Q) = (k \<notin> seen \<and> Q)"
      by auto
    then show ?thesis
      unfolding upt using True Cons[of seen]
      by (simp add: filter_map comp_def)
  next
    case False
    then show ?thesis
      unfolding upt using Cons[of "insert (key x) seen"]
      by (simp add: filter_map comp_def conj_ac)
  qed
qed

lemma main_index:
  "\<exists>rs. main raw_items = Inr rs \<and>
     map Inr rs = map cleaned_record
       (map (\<lambda>j. raw_items ! j)
          (filter (\<lambda>j. build_dedupe_key (raw_items ! j) \<notin> build_dedupe_key ` set (take j raw_items))
             [0..<length raw_items]))"
  using main_loop_first_by[of raw_items "[]" "{}"] first_by_index[of build_dedupe_key "{}" raw_items]
  by (auto simp: main_def)

lemma main_loop_drop_seen:
  "build_dedupe_key x \<in> seen \<union> build_dedupe_key ` set pre \<Longrightarrow>
   main_loop (pre @ x # post) (cl, seen) = main_loop (pre @ post) (cl, seen)"
proof (induction pre arbitrary: cl seen)
  case Nil
  then show ?case by simp
next
  case (Cons p ps)
  show ?case
  proof (cases "build_dedupe_key p \<in> seen")
    case True
    with Cons.prems have "build_dedupe_key x \<in> seen \<union> build_dedupe_key ` set ps" by auto
    from Cons.IH[OF this] True show ?thesis by simp
  next
    case False
    from Cons.prems have "build_dedupe_key x \<in> insert (build_dedupe_key p) seen \<union> build_dedupe_key ` set ps"
      by auto
    from Cons.IH[OF this] False show ?thesis
      by (simp add: Let_def split: sum.splits)
  qed
qed

lemma main_drop_later:
  assumes "build_dedupe_key r1 = build_dedupe_key r2"
  shows "main (pre @ r1 # mid @ r2 # post) = main (pre @ r1 # mid @ post)"
proof -
  have "build_dedupe_key r2 \<in> {} \<union> build_dedupe_key ` set (pre @ r1 # mid)"
    using assms by auto
  from main_loop_drop_seen[OF this, of post "[]"] show ?thesis
    by (simp add: main_def)
qed


lemma first_by_keys: "key ` set (first_by key seen xs) = key ` set xs - seen"
  by (induction xs arbitrary: seen) auto

lemma first_by_distinct: "distinct (map key (first_by key seen xs))"
proof (induction xs arbitrary: seen)
  case Nil
  show ?case by simp
next
  case (Cons x xs)
  show ?case
    using Cons[of seen] Cons[of "insert (key x) seen"]
      first_by_keys[of key "insert (key x) seen" xs]
    by auto
qed

lemma build_dedupe_key_blank:
  "\<not> truthy (item_title a) \<Longrightarrow> \<not> truthy (listed_price a) \<Longrightarrow> build_dedupe_key a = ''::''"
  by (cases "item_title a"; cases "listed_price a")
     (simp_all add: build_dedupe_key_def lower_def strip_Nil)

lemma distinct_const_length:
  assumes "distinct ks" "\<forall>k\<in>set ks. k = c"
  shows "length ks \<le> 1"
proof -
  have "set ks \<subseteq> {c}" using assms(2) by auto
  then have "card (set ks) \<le> card {c}" by (intro card_mono) auto
  then show ?thesis using distinct_card[OF assms(1)] by simp
qed

lemma first_by_blank_once:
  "length (filter (\<lambda>x. \<not> truthy (item_title x) \<and> \<not> truthy (listed_price x)) (first_by build_dedupe_key seen xs)) \<le> 1"
proof -
  let ?b = "\<lambda>x. \<not> truthy (item_title x) \<and> \<not> truthy (listed_price x)"
  have "distinct (map build_dedupe_key (filter ?b (first_by build_dedupe_key seen xs)))"
    by (rule distinct_map_filter[OF first_by_distinct])
  moreover have "\<forall>k\<in>set (map build_dedupe_key (filter ?b (first_by build_dedupe_key seen xs))). k = ''::''"
    by (auto simp: build_dedupe_key_blank)
  ultimately have "length (map build_dedupe_key (filter ?b (first_by build_dedupe_key seen xs))) \<le> 1"
    by (rule distinct_const_length)
  then show ?thesis by simp
qed

lemma cleaned_record_fields:
  "cleaned_record x = Inr r \<Longrightarrow>
   c_item_title r = item_title x \<and> listed_price_raw r = listed_price x \<and> c_source_url r = source_url x"
  by (auto simp: cleaned_record_def split: sum.splits)

lemma cleaned_blank_filter:
  "map Inr rs = map cleaned_record ks \<Longrightarrow>
   length (filter (\<lambda>r. \<not> truthy (c_item_title r) \<and> \<not> truthy (listed_price_raw r)) rs) =
   length (filter (\<lambda>x. \<not> truthy (item_title x) \<and> \<not> truthy (listed_price x)) ks)"
proof (induction rs arbitrary: ks)
  case Nil
  then show ?case by simp
next
  case (Cons r rs)
  then obtain k ks' where ks: "ks = k # ks'" by (cases ks) auto
  with Cons.prems have "cleaned_record k = Inr r" "map Inr rs = map cleaned_record ks'"
    by auto
  with Cons.IH[of ks'] cleaned_record_fields[of k r] show ?case
    by (simp add: ks)
qed

lemma main_blank_once:
  "\<exists>rs. main raw_items = Inr rs \<and>
     length (filter (\<lambda>r. \<not> truthy (c_item_title r) \<and> \<not> truthy (listed_price_raw r)) rs) \<le> 1"
  using main_loop_first_by[of raw_items "[]" "{}"] first_by_blank_once[of "{}" raw_items]
  by (auto simp: main_def dest: cleaned_blank_filter)

text \<open>
  C3. \<open>main\<close> returns normally; its output holds, in input order, the cleaned record of
  exactly those raw records whose dedup key does not occur among the records before them.
  Two records that agree on the first 40 characters of the lower-cased, trimmed title and
  on the trimmed price text have the same key, and the later of the two leaves no trace:
  the output is the same as for the input without it.
\<close>

theorem dedup_keeps_first:
  "(\<exists>rs. main raw_items = Inr rs \<and>
      map Inr rs = map cleaned_record
        (map (\<lambda>j. raw_items ! j)
           (filter (\<lambda>j. build_dedupe_key (raw_items ! j)
                          \<notin> build_dedupe_key ` set (take j raw_items))
              [0..<length raw_items])))
   \<and> (take 40 (strip (lower (or_empty (item_title a))))
          = take 40 (strip (lower (or_empty (item_title b))))
        \<and> strip (or_empty (listed_price a)) = strip (or_empty (listed_price b))
        \<longrightarrow> main (pre @ a # mid @ b # post) = main (pre @ a # mid @ post))"
proof -
  have "build_dedupe_key a = build_dedupe_key b"
    if "take 40 (strip (lower (or_empty (item_title a))))
          = take 40 (strip (lower (or_empty (item_title b))))"
      and "strip (or_empty (listed_price a)) = strip (or_empty (listed_price b))"
    using that by (simp add: build_dedupe_key_def Let_def)
  then show ?thesis
    using main_index[of raw_items] main_drop_later[of a b pre mid post]
    by blast
qed

theorem dedup_keeps_first_witness:
  "(\<exists>rs. main [raw_fixture ''u1'' (Some ''Oak Chest'') (Some ''100''),
               raw_fixture ''u2'' (Some '' oak chest  '') (Some '' 100''),
               raw_fixture ''u3'' (Some ''Oak Table'') (Some ''100'')] = Inr rs \<and>
         map Inr rs =
           [cleaned_record (raw_fixture ''u1'' (Some ''Oak Chest'') (Some ''100'')),
            cleaned_record (raw_fixture ''u3'' (Some ''Oak Table'') (Some ''100''))])
   \<and> main [raw_fixture ''u1'' (Some ''Oak Chest'') (Some ''100''),
            raw_fixture ''u2'' (Some '' oak chest  '') (Some '' 100''),
            raw_fixture ''u3'' (Some ''Oak Table'') (Some ''100'')]
     = main [raw_fixture ''u1'' (Some ''Oak Chest'') (Some ''100''),
             raw_fixture ''u3'' (Some ''Oak Table'') (Some ''100'')]"
proof -
  let ?a = "raw_fixture ''u1'' (Some ''Oak Chest'') (Some ''100'')"
  let ?b = "raw_fixture ''u2'' (Some '' oak chest  '') (Some '' 100'')"
  let ?c = "raw_fixture ''u3'' (Some ''Oak Table'') (Some ''100'')"
  have k1: "build_dedupe_key ?a = ''oak chest::100''"
    by code_simp
  have k2: "build_dedupe_key ?b = ''oak chest::100''"
    by code_simp
  have k3: "build_dedupe_key ?c = ''oak table::100''"
    by code_simp
  have t: "take 40 (strip (lower (or_empty (item_title ?a))))
             = take 40 (strip (lower (or_empty (item_title ?b))))"
    by code_simp
  have p: "strip (or_empty (listed_price ?a)) = strip (or_empty (listed_price ?b))"
    by code_simp
  have upt: "[0..<3] = [0, 1, 2]" by (simp add: upt_rec)
  have tk: "\<And>(x::raw_item) y z. take 2 [x, y, z] = [x, y]" by (simp add: numeral_2_eq_2)
  have idx: "filter (\<lambda>j. build_dedupe_key ([?a, ?b, ?c] ! j)
                          \<notin> build_dedupe_key ` set (take j [?a, ?b, ?c]))
               [0..<length [?a, ?b, ?c]] = [0, 2]"
    by (simp add: upt tk k1 k2 k3)
  note inst = dedup_keeps_first[of "[?a, ?b, ?c]" ?a ?b "[]" "[]" "[?c]"]
  from inst have "\<exists>rs. main [?a, ?b, ?c] = Inr rs \<and>
      map Inr rs = [cleaned_record ?a, cleaned_record ?c]"
    unfolding idx by simp
  moreover from inst t p have "main [?a, ?b, ?c] = main [?a, ?c]"
    by simp
  ultimately show ?thesis
    by (rule conjI)
qed

lemma first_by_member:
  "key x \<notin> seen \<union> key ` set pre \<Longrightarrow> x \<in> set (first_by key seen (pre @ x # post))"
  by (induction pre arbitrary: seen) auto

lemma main_first_survives:
  assumes "build_dedupe_key a \<notin> build_dedupe_key ` set pre"
  shows "\<exists>rs r. main (pre @ a # post) = Inr rs \<and> cleaned_record a = Inr r \<and> r \<in> set rs"
proof -
  from main_loop_first_by[of "pre @ a # post" "[]" "{}"]
  obtain rs where rs: "main (pre @ a # post) = Inr rs"
    "map Inr rs = map cleaned_record (first_by build_dedupe_key {} (pre @ a # post))"
    by (auto simp: main_def)
  have "a \<in> set (first_by build_dedupe_key {} (pre @ a # post))"
    using assms by (intro first_by_member) simp
  then have "cleaned_record a \<in> set (map Inr rs)"
    unfolding rs(2) by simp
  then obtain r where "r \<in> set rs" "cleaned_record a = Inr r" by auto
  with rs(1) show ?thesis by blast
qed

text \<open>
  C10. A record whose title and price text are both missing or empty has the constant
  dedup key \<open>::\<close>. So of two such records the later one leaves no trace in the output,
  whatever its source URL; the first one is in the output when no record before it has
  the key \<open>::\<close>; and the output of \<open>main\<close> never holds more than one record with
  neither title nor price text.
\<close>

theorem blank_items_collide:
  "(\<not> truthy (item_title a) \<and> \<not> truthy (listed_price a) \<longrightarrow> build_dedupe_key a = ''::'')
   \<and> (\<not> truthy (item_title a) \<and> \<not> truthy (listed_price a) \<and>
        \<not> truthy (item_title b) \<and> \<not> truthy (listed_price b)
        \<longrightarrow> main (pre @ a # mid @ b # post) = main (pre @ a # mid @ post))
   \<and> (\<not> truthy (item_title a) \<and> \<not> truthy (listed_price a) \<and>
        ''::'' \<notin> build_dedupe_key ` set pre
        \<longrightarrow> (\<exists>rs r. main (pre @ a # post) = Inr rs \<and> cleaned_record a = Inr r \<and> r \<in> set rs))
   \<and> (\<exists>rs. main raw_items = Inr rs \<and>
         length (filter (\<lambda>r. \<not> truthy (c_item_title r) \<and> \<not> truthy (listed_price_raw r)) rs)
           \<le> 1)"
proof -
  have later: "main (pre @ a # mid @ b # post) = main (pre @ a # mid @ post)"
    if "\<not> truthy (item_title a)" "\<not> truthy (listed_price a)"
       "\<not> truthy (item_title b)" "\<not> truthy (listed_price b)"
  proof -
    have "build_dedupe_key a = build_dedupe_key b"
      using that by (simp add: build_dedupe_key_blank)
    then show ?thesis by (rule main_drop_later)
  qed
  have first: "\<exists>rs r. main (pre @ a # post) = Inr rs \<and> cleaned_record a = Inr r \<and> r \<in> set rs"
    if "\<not> truthy (item_title a)" "\<not> truthy (listed_price a)"
       "''::'' \<notin> build_dedupe_key ` set pre"
  proof -
    have "build_dedupe_key a \<notin> build_dedupe_key ` set pre"
      using that by (simp add: build_dedupe_key_blank)
    then show ?thesis by (rule main_first_survives)
  qed
  show ?thesis
    using build_dedupe_key_blank[of a] later first main_blank_once[of raw_items]
    by blast
qed

theorem blank_items_collide_witness:
  "source_url (raw_fixture ''/antique/1'' None (Some []))
     \<noteq> source_url (raw_fixture ''/antique/2'' (Some []) None)
   \<and> build_dedupe_key (raw_fixture ''/antique/1'' None (Some [])) = ''::''
   \<and> main [raw_fixture ''/antique/3'' (Some ''Oak Chest'') None,
            raw_fixture ''/antique/1'' None (Some []),
            raw_fixture ''/antique/4'' (Some ''Oak Table'') None,
            raw_fixture ''/antique/2'' (Some []) None]
     = main [raw_fixture ''/antique/3'' (Some ''Oak Chest'') None,
             raw_fixture ''/antique/1'' None (Some []),
             raw_fixture ''/antique/4'' (Some ''Oak Table'') None]
   \<and> (\<exists>rs r. main [raw_fixture ''/antique/3'' (Some ''Oak Chest'') None,
                    raw_fixture ''/antique/1'' None (Some []),
                    raw_fixture ''/antique/4'' (Some ''Oak Table'') None] = Inr rs
          \<and> cleaned_record (raw_fixture ''/antique/1'' None (Some [])) = Inr r \<and> r \<in> set rs)"
proof -
  let ?a = "raw_fixture ''/antique/1'' None (Some [])"
  let ?b = "raw_fixture ''/antique/2'' (Some []) None"
  let ?c = "raw_fixture ''/antique/3'' (Some ''Oak Chest'') None"
  let ?d = "raw_fixture ''/antique/4'' (Some ''Oak Table'') None"
  have h: "\<not> truthy (item_title ?a) \<and> \<not> truthy (listed_price ?a) \<and>
           \<not> truthy (item_title ?b) \<and> \<not> truthy (listed_price ?b)"
    by (simp add: raw_fixture_def)
  have u: "source_url ?a \<noteq> source_url ?b"
    by (simp add: raw_fixture_def)
  have kc: "build_dedupe_key ?c = ''oak chest::''"
    by code_simp
  then have p: "''::'' \<notin> build_dedupe_key ` set [?c]"
    by simp
  note inst = blank_items_collide[of ?a ?b "[?c]" "[?d]" "[]" "[]"]
  from inst h have "build_dedupe_key ?a = ''::''" by blast
  moreover from inst h have "main ([?c] @ ?a # [?d] @ ?b # []) = main ([?c] @ ?a # [?d] @ [])"
    by blast
  moreover from blank_items_collide[of ?a ?b "[?c]" "[]" "[?d]" "[]"] h p
  have "\<exists>rs r. main ([?c] @ ?a # [?d]) = Inr rs \<and> cleaned_record ?a = Inr r \<and> r \<in> set rs"
    by blast
  ultimately show ?thesis using u by simp
qed


section \<open>Properties of the collection step\<close>

subsection \<open>Image collection\<close>

lemma image_loop_filter:
  "image_loop imgs acc =
     acc @ filter (\<lambda>u. contains u IMAGE_CDN) (List.map_filter candidate_url imgs)"
proof (induction imgs arbitrary: acc)
  case Nil
  show ?case by simp
next
  case (Cons img imgs)
  show ?case
    by (cases "py_or (src img) (data_src img)")
       (simp_all add: Cons candidate_url_def Let_def)
qed

lemma dict_fromkeys_foldl:
  "foldl (\<lambda>d k. if k \<in> set d then d else d @ [k]) d xs = d @ first_by (\<lambda>x. x) (set d) xs"
  by (induction xs arbitrary: d) auto

lemma dict_fromkeys_first_by: "dict_fromkeys xs = first_by (\<lambda>x. x) {} xs"
  using dict_fromkeys_foldl[of "[]" xs] by (simp add: dict_fromkeys_def)

lemma dict_fromkeys_index:
  "dict_fromkeys xs =
     map (\<lambda>j. xs ! j) (filter (\<lambda>j. xs ! j \<notin> set (take j xs)) [0..<length xs])"
  using first_by_index[of "\<lambda>x. x" "{}" xs] by (simp add: dict_fromkeys_first_by)

lemma dict_fromkeys_distinct: "distinct (dict_fromkeys xs)"
  using first_by_distinct[of "\<lambda>x. x" "{}" xs] by (simp add: dict_fromkeys_first_by)

lemma dict_fromkeys_set: "set (dict_fromkeys xs) = set xs"
  using first_by_keys[of "\<lambda>x. x" "{}" xs] by (simp add: dict_fromkeys_first_by)

lemma extract_images_subset:
  "set (extract_images page) \<subseteq>
     {u \<in> set (List.map_filter candidate_url (img_tags page)). contains u IMAGE_CDN}"
proof -
  have "set (extract_images page) \<subseteq> set (dict_fromkeys (image_loop (img_tags page) []))"
    unfolding extract_images_def by (rule set_take_subset)
  then show ?thesis
    by (auto simp: dict_fromkeys_set image_loop_filter)
qed

lemma extract_images_all:
  assumes "length (dict_fromkeys (image_loop (img_tags page) [])) \<le> 5"
  shows "set (extract_images page) =
     {u \<in> set (List.map_filter candidate_url (img_tags page)). contains u IMAGE_CDN}"
  using assms by (auto simp: extract_images_def dict_fromkeys_set image_loop_filter)

lemma image_loop_protocol_relative:
  "py_or (src img) (data_src img) = Some s \<Longrightarrow> startswith s ''//'' \<Longrightarrow>
   image_loop [img] [] = (if contains (''https:'' @ s) IMAGE_CDN then [''https:'' @ s] else [])"
  by (cases s) (auto simp: Let_def)

text \<open>
  C2, as the claim states it, fails: the loop tests whether the URL text contains the
  name of the image CDN, not whether its host is that name. A URL on another host whose
  path holds the name is kept.
\<close>

theorem image_kept_on_other_host:
  "url_host ''https://example.com/images.antiquesatlas.com/a.jpg'' = ''example.com''
   \<and> url_host ''https://example.com/images.antiquesatlas.com/a.jpg'' \<noteq> IMAGE_CDN
   \<and> extract_images
         (page_with_images [img_src ''https://example.com/images.antiquesatlas.com/a.jpg''])
       = [''https://example.com/images.antiquesatlas.com/a.jpg'']"
  by code_simp

text \<open>
  C2, amended. The image loop keeps exactly the candidate URLs whose text contains the
  name of the image CDN anywhere, in the order of the tags. Every URL of the record's
  image list is such a candidate, and when at most five distinct candidates pass, the
  list holds every one of them.
\<close>

theorem image_filter_substring:
  "image_loop imgs [] =
     filter (\<lambda>u. contains u IMAGE_CDN) (List.map_filter candidate_url imgs)
   \<and> set (extract_images page)
       \<subseteq> {u \<in> set (List.map_filter candidate_url (img_tags page)). contains u IMAGE_CDN}
   \<and> (length (dict_fromkeys (image_loop (img_tags page) [])) \<le> 5 \<longrightarrow>
        set (extract_images page)
          = {u \<in> set (List.map_filter candidate_url (img_tags page)). contains u IMAGE_CDN})"
  using image_loop_filter[of imgs "[]"] extract_images_subset[of page]
    extract_images_all[of page]
  by simp

theorem image_filter_substring_witness:
  "set (extract_images (page_with_images
          [img_src ''https://images.antiquesatlas.com/a.jpg'',
           img_src ''https://cdn.example.com/logo.png'',
           img_src ''https://example.com/images.antiquesatlas.com/a.jpg'']))
     = {u \<in> set (List.map_filter candidate_url (img_tags (page_with_images
          [img_src ''https://images.antiquesatlas.com/a.jpg'',
           img_src ''https://cdn.example.com/logo.png'',
           img_src ''https://example.com/images.antiquesatlas.com/a.jpg'']))).
          contains u IMAGE_CDN}
   \<and> extract_images (page_with_images
          [img_src ''https://images.antiquesatlas.com/a.jpg'',
           img_src ''https://cdn.example.com/logo.png'',
           img_src ''https://example.com/images.antiquesatlas.com/a.jpg''])
     = [''https://images.antiquesatlas.com/a.jpg'',
        ''https://example.com/images.antiquesatlas.com/a.jpg'']"
proof -
  let ?page = "page_with_images
          [img_src ''https://images.antiquesatlas.com/a.jpg'',
           img_src ''https://cdn.example.com/logo.png'',
           img_src ''https://example.com/images.antiquesatlas.com/a.jpg'']"
  have h: "length (dict_fromkeys (image_loop (img_tags ?page) [])) \<le> 5"
    by code_simp
  have v: "extract_images ?page
     = [''https://images.antiquesatlas.com/a.jpg'',
        ''https://example.com/images.antiquesatlas.com/a.jpg'']"
    by code_simp
  from image_filter_substring[of "[]" ?page] h
  have "set (extract_images ?page)
     = {u \<in> set (List.map_filter candidate_url (img_tags ?page)). contains u IMAGE_CDN}"
    by blast
  then show ?thesis using v by (rule conjI)
qed

text \<open>
  C9. The image list of a record has no duplicates and at most five entries: it is the
  first five of the URLs the loop kept, each at its first occurrence and in the order of
  these first occurrences. A source that starts with \<open>//\<close> is tested and stored with
  \<open>https:\<close> in front. Eight kept URLs of which two repeat an earlier one give the first
  five of the six distinct URLs.
\<close>

theorem image_list_construction:
  "distinct (extract_images page)
   \<and> length (extract_images page) \<le> 5
   \<and> extract_images page =
       (let xs = image_loop (img_tags page) []
        in take 5 (map (\<lambda>j. xs ! j) (filter (\<lambda>j. xs ! j \<notin> set (take j xs)) [0..<length xs])))
   \<and> (py_or (src img) (data_src img) = Some s \<and> startswith s ''//'' \<longrightarrow>
        image_loop [img] [] =
          (if contains (''https:'' @ s) IMAGE_CDN then [''https:'' @ s] else []))
   \<and> extract_images (page_with_images (map img_src
        [''//images.antiquesatlas.com/1.jpg'', ''https://images.antiquesatlas.com/2.jpg'',
         ''//images.antiquesatlas.com/1.jpg'', ''https://images.antiquesatlas.com/3.jpg'',
         ''https://images.antiquesatlas.com/4.jpg'', ''https://images.antiquesatlas.com/2.jpg'',
         ''https://images.antiquesatlas.com/5.jpg'', ''https://images.antiquesatlas.com/6.jpg'']))
       = [''https://images.antiquesatlas.com/1.jpg'', ''https://images.antiquesatlas.com/2.jpg'',
          ''https://images.antiquesatlas.com/3.jpg'', ''https://images.antiquesatlas.com/4.jpg'',
          ''https://images.antiquesatlas.com/5.jpg'']"
proof -
  have d: "distinct (extract_images page)"
    unfolding extract_images_def by (rule distinct_take[OF dict_fromkeys_distinct])
  have l: "length (extract_images page) \<le> 5"
    by (simp add: extract_images_def)
  have i: "extract_images page =
       (let xs = image_loop (img_tags page) []
        in take 5 (map (\<lambda>j. xs ! j) (filter (\<lambda>j. xs ! j \<notin> set (take j xs)) [0..<length xs])))"
    unfolding extract_images_def Let_def
    by (subst dict_fromkeys_index) (rule refl)
  have e: "extract_images (page_with_images (map img_src
        [''//images.antiquesatlas.com/1.jpg'', ''https://images.antiquesatlas.com/2.jpg'',
         ''//images.antiquesatlas.com/1.jpg'', ''https://images.antiquesatlas.com/3.jpg'',
         ''https://images.antiquesatlas.com/4.jpg'', ''https://images.antiquesatlas.com/2.jpg'',
         ''https://images.antiquesatlas.com/5.jpg'', ''https://images.antiquesatlas.com/6.jpg'']))
       = [''https://images.antiquesatlas.com/1.jpg'', ''https://images.antiquesatlas.com/2.jpg'',
          ''https://images.antiquesatlas.com/3.jpg'', ''https://images.antiquesatlas.com/4.jpg'',
          ''https://images.antiquesatlas.com/5.jpg'']"
    by code_simp
  show ?thesis
    using d l i e image_loop_protocol_relative[of img s]
    by blast
qed

theorem image_list_construction_witness:
  "image_loop [img_src ''//images.antiquesatlas.com/1.jpg''] []
     = [''https://images.antiquesatlas.com/1.jpg'']
   \<and> distinct (extract_images (page_with_images (map img_src
        [''//images.antiquesatlas.com/1.jpg'', ''https://images.antiquesatlas.com/1.jpg''])))
   \<and> extract_images (page_with_images (map img_src
        [''//images.antiquesatlas.com/1.jpg'', ''https://images.antiquesatlas.com/1.jpg'']))
     = [''https://images.antiquesatlas.com/1.jpg'']"
proof -
  let ?img = "img_src ''//images.antiquesatlas.com/1.jpg''"
  let ?page = "page_with_images (map img_src
        [''//images.antiquesatlas.com/1.jpg'', ''https://images.antiquesatlas.com/1.jpg''])"
  have h: "py_or (src ?img) (data_src ?img) = Some ''//images.antiquesatlas.com/1.jpg''
           \<and> startswith ''//images.antiquesatlas.com/1.jpg'' ''//''"
    by code_simp
  have c: "contains (''https:'' @ ''//images.antiquesatlas.com/1.jpg'') IMAGE_CDN"
    by code_simp
  have v: "extract_images ?page = [''https://images.antiquesatlas.com/1.jpg'']"
    by code_simp
  note inst = image_list_construction[of ?page ?img "''//images.antiquesatlas.com/1.jpg''"]
  from inst h c have "image_loop [?img] [] = [''https://images.antiquesatlas.com/1.jpg'']"
    by simp
  moreover from inst have "distinct (extract_images ?page)"
    by blast
  ultimately show ?thesis using v by blast
qed

subsection \<open>The walk over the listing pages\<close>

lemma discover_append:
  "discover w visited (ls @ rest) =
     discover w visited ls @ discover w (visited \<union> set (List.map_filter link_url ls)) rest"
proof (induction ls arbitrary: visited)
  case Nil
  show ?case by simp
next
  case (Cons l ls)
  show ?case
    by (cases "link_url l") (auto simp: Cons insert_absorb split: option.splits)
qed

lemma scan_links_discover:
  "scan_links w cat links (n, st) = (n', st') \<Longrightarrow>
   collected_items st' = collected_items st
       @ map (\<lambda>(u, p). extract_record cat u p)
           (take (MAX_ITEMS_PER_CATEGORY - n) (discover w (visited_item_urls st) links))
   \<and> n' = n + length (take (MAX_ITEMS_PER_CATEGORY - n) (discover w (visited_item_urls st) links))
   \<and> (n' < MAX_ITEMS_PER_CATEGORY \<longrightarrow>
        visited_item_urls st' = visited_item_urls st \<union> set (List.map_filter link_url links))"
proof (induction links arbitrary: n st)
  case Nil
  then show ?case by simp
next
  case (Cons l links)
  show ?case
  proof (cases "MAX_ITEMS_PER_CATEGORY \<le> n")
    case True
    with Cons.prems show ?thesis by simp
  next
    case False
    note lt = False
    show ?thesis
    proof (cases "link_url l")
      case None
      then have "scan_links w cat (l # links) (n, st) = scan_links w cat links (n, st)"
        using lt by (auto simp: link_url_def split: option.splits if_splits)
      with Cons.prems Cons.IH[of n st] None show ?thesis by simp
    next
      case (Some u)
      then obtain rel where l: "l = Some rel" "rel \<noteq> []" "u = BASE_SITE_URL @ rel"
        by (auto simp: link_url_def split: option.splits if_splits)
      show ?thesis
      proof (cases "u \<in> visited_item_urls st")
        case True
        then have "scan_links w cat (l # links) (n, st) = scan_links w cat links (n, st)"
          using lt l by simp
        with Cons.prems Cons.IH[of n st] Some True show ?thesis
          by (auto simp: insert_absorb)
      next
        case False
        let ?st1 = "st\<lparr> visited_item_urls := insert u (visited_item_urls st),
                         requests_log := requests_log st @ [ItemPage u] \<rparr>"
        show ?thesis
        proof (cases "fetch_item w u")
          case None
          then have "scan_links w cat (l # links) (n, st) = scan_links w cat links (n, ?st1)"
            using lt l False by (simp add: Let_def)
          with Cons.prems Cons.IH[of n ?st1] Some False None show ?thesis
            by auto
        next
          case (Some page)
          let ?st2 = "?st1\<lparr> collected_items := collected_items ?st1 @ [extract_record cat u page] \<rparr>"
          have "scan_links w cat (l # links) (n, st) = scan_links w cat links (n + 1, ?st2)"
            using lt l False Some by (simp add: Let_def)
          moreover have "MAX_ITEMS_PER_CATEGORY - n = Suc (MAX_ITEMS_PER_CATEGORY - (n + 1))"
            using lt by simp
          ultimately show ?thesis
            using Cons.prems Cons.IH[of "n + 1" ?st2] \<open>link_url l = Some u\<close> False Some
            by auto
        qed
      qed
    qed
  qed
qed


lemma links_from_step:
  "page \<le> MAX_PAGES_TO_SCAN \<Longrightarrow>
   links_from w path page =
     (if links_of (fetch_listing w path page) = [] then []
      else links_of (fetch_listing w path page) @ links_from w path (page + 1))"
  by (simp add: links_from_def upt_conv_Cons del: upt_Suc)

lemma links_from_beyond: "MAX_PAGES_TO_SCAN < page \<Longrightarrow> links_from w path page = []"
  by (simp add: links_from_def)

lemma walk_pages_stop:
  "\<not> (n < MAX_ITEMS_PER_CATEGORY \<and> page \<le> MAX_PAGES_TO_SCAN) \<Longrightarrow>
   walk_pages w cat path page (n, st) = Inr (n, st)"
  by (subst walk_pages.simps) auto

lemma walk_pages_error:
  "n < MAX_ITEMS_PER_CATEGORY \<Longrightarrow> page \<le> MAX_PAGES_TO_SCAN \<Longrightarrow>
   fetch_listing w path page = None \<Longrightarrow>
   walk_pages w cat path page (n, st) =
     Inl (RequestException, st\<lparr> requests_log := requests_log st @ [ListingPage path page] \<rparr>)"
  by (subst walk_pages.simps) (simp add: Let_def)

lemma walk_pages_empty:
  "n < MAX_ITEMS_PER_CATEGORY \<Longrightarrow> page \<le> MAX_PAGES_TO_SCAN \<Longrightarrow>
   fetch_listing w path page = Some [] \<Longrightarrow>
   walk_pages w cat path page (n, st) =
     Inr (n, st\<lparr> requests_log := requests_log st @ [ListingPage path page] \<rparr>)"
  by (subst walk_pages.simps) (simp add: Let_def)

lemma walk_pages_next:
  "n < MAX_ITEMS_PER_CATEGORY \<Longrightarrow> page \<le> MAX_PAGES_TO_SCAN \<Longrightarrow>
   fetch_listing w path page = Some links \<Longrightarrow> links \<noteq> [] \<Longrightarrow>
   walk_pages w cat path page (n, st) =
     walk_pages w cat path (page + 1)
       (scan_links w cat links
          (n, st\<lparr> requests_log := requests_log st @ [ListingPage path page] \<rparr>))"
  by (subst walk_pages.simps) (simp add: Let_def)

lemma walk_pages_discover:
  assumes "\<forall>q. page \<le> q \<and> q \<le> MAX_PAGES_TO_SCAN \<longrightarrow> fetch_listing w path q \<noteq> None"
  shows "\<exists>ns'. walk_pages w cat path page ns = Inr ns' \<and>
           collected_items (snd ns') = collected_items (snd ns)
             @ map (\<lambda>(u, p). extract_record cat u p)
                 (take (MAX_ITEMS_PER_CATEGORY - fst ns)
                    (discover w (visited_item_urls (snd ns)) (links_from w path page)))"
  using assms
proof (induction w cat path page ns rule: walk_pages.induct)
  case (1 w cat path page n st)
  let ?st1 = "st\<lparr> requests_log := requests_log st @ [ListingPage path page] \<rparr>"
  show ?case
  proof (cases "n < MAX_ITEMS_PER_CATEGORY \<and> page \<le> MAX_PAGES_TO_SCAN")
    case False
    then have "walk_pages w cat path page (n, st) = Inr (n, st)"
      by (rule walk_pages_stop)
    moreover have "take (MAX_ITEMS_PER_CATEGORY - n)
        (discover w (visited_item_urls st) (links_from w path page)) = []"
      using False by (cases "n < MAX_ITEMS_PER_CATEGORY") (simp_all add: links_from_beyond)
    ultimately show ?thesis by simp
  next
    case True
    then obtain links where links: "fetch_listing w path page = Some links"
      using "1.prems" by (cases "fetch_listing w path page") auto
    show ?thesis
    proof (cases "links = []")
      case True
      have "walk_pages w cat path page (n, st) = Inr (n, ?st1)"
        using \<open>n < MAX_ITEMS_PER_CATEGORY \<and> page \<le> MAX_PAGES_TO_SCAN\<close> links True
        by (simp add: walk_pages_empty)
      moreover have "links_from w path page = []"
        using \<open>n < MAX_ITEMS_PER_CATEGORY \<and> page \<le> MAX_PAGES_TO_SCAN\<close> links True
        by (simp add: links_from_step)
      ultimately show ?thesis by simp
    next
      case False
      obtain n1 st1 where scan: "scan_links w cat links (n, ?st1) = (n1, st1)"
        by (cases "scan_links w cat links (n, ?st1)") auto
      note sd = scan_links_discover[OF scan]
      have prem: "\<forall>q. page + 1 \<le> q \<and> q \<le> MAX_PAGES_TO_SCAN \<longrightarrow> fetch_listing w path q \<noteq> None"
        using "1.prems" by auto
      from "1.IH"[OF True refl links False prem]
      obtain ns' where ih: "walk_pages w cat path (page + 1) (n1, st1) = Inr ns'"
        "collected_items (snd ns') = collected_items st1
           @ map (\<lambda>(u, p). extract_record cat u p)
               (take (MAX_ITEMS_PER_CATEGORY - n1)
                  (discover w (visited_item_urls st1) (links_from w path (page + 1))))"
        unfolding scan by auto
      have w: "walk_pages w cat path page (n, st) = Inr ns'"
        using True links False scan ih(1)
        by (simp add: walk_pages_next)
      have lf: "links_from w path page = links @ links_from w path (page + 1)"
        using True links False by (simp add: links_from_step)
      let ?D = "discover w (visited_item_urls st) links"
      let ?k = "MAX_ITEMS_PER_CATEGORY - n"
      have col1: "collected_items st1 = collected_items st
            @ map (\<lambda>(u, p). extract_record cat u p) (take ?k ?D)"
        and n1: "n1 = n + length (take ?k ?D)"
        and vis: "n1 < MAX_ITEMS_PER_CATEGORY \<Longrightarrow>
            visited_item_urls st1 = visited_item_urls st \<union> set (List.map_filter link_url links)"
        using sd by simp_all
      have "take (MAX_ITEMS_PER_CATEGORY - n1)
                  (discover w (visited_item_urls st1) (links_from w path (page + 1)))
            = take (?k - length ?D)
                (discover w (visited_item_urls st \<union> set (List.map_filter link_url links))
                   (links_from w path (page + 1)))"
      proof (cases "n1 < MAX_ITEMS_PER_CATEGORY")
        case True
        then have "length ?D < ?k" using n1 by auto
        then show ?thesis using vis[OF True] n1 by simp
      next
        case False
        then have "?k \<le> length ?D" using n1 True by auto
        then show ?thesis using False by simp
      qed
      then have "collected_items (snd ns') = collected_items st
           @ map (\<lambda>(u, p). extract_record cat u p)
               (take ?k (discover w (visited_item_urls st) (links_from w path page)))"
        using ih(2) col1 by (simp add: lf discover_append)
      with w show ?thesis by simp
    qed
  qed
qed

lemma item_requests_append: "item_requests (xs @ ys) = item_requests xs @ item_requests ys"
  by (induction xs rule: item_requests.induct) auto

lemma final_state_walk_category:
  "final_state (walk_category w cat path st) = walk_state (walk_pages w cat path 1 (0, st))"
  by (cases "walk_pages w cat path 1 (0, st)") (auto simp: walk_category_def)

lemma scan_links_log:
  "scan_links w cat links (n, st) = (n', st') \<Longrightarrow>
   \<exists>us. requests_log st' = requests_log st @ map ItemPage us"
proof (induction links arbitrary: n st)
  case Nil
  then show ?case by simp
next
  case (Cons l links)
  show ?case
  proof (cases "MAX_ITEMS_PER_CATEGORY \<le> n")
    case True
    with Cons.prems show ?thesis by simp
  next
    case False
    from Cons.prems False show ?thesis
      apply (simp add: Let_def split: option.splits if_splits)
      subgoal by (erule Cons.IH)
      subgoal by (erule Cons.IH)
      subgoal by (erule Cons.IH)
      subgoal by (drule Cons.IH) (auto intro: exI[of _ "_ # _"])
      subgoal by (drule Cons.IH) (auto intro: exI[of _ "_ # _"])
      done
  qed
qed


lemma walk_pages_stops_at_empty:
  assumes "fetch_listing w path k = Some []" "page \<le> k"
  shows "(\<exists>new. requests_log (walk_state (walk_pages w cat path page ns))
                 = requests_log (snd ns) @ new
              \<and> (\<forall>path' q. ListingPage path' q \<in> set new \<longrightarrow> path' = path \<and> page \<le> q \<and> q \<le> k)
              \<and> (ListingPage path k \<in> set new \<longrightarrow> (\<exists>pre. new = pre @ [ListingPage path k])))
         \<and> ((\<forall>q. page \<le> q \<and> q < k \<longrightarrow> fetch_listing w path q \<noteq> None)
              \<longrightarrow> (\<exists>ns'. walk_pages w cat path page ns = Inr ns'))"
  using assms
proof (induction w cat path page ns rule: walk_pages.induct)
  case (1 w cat path page n st)
  let ?st1 = "st\<lparr> requests_log := requests_log st @ [ListingPage path page] \<rparr>"
  show ?case
  proof (cases "n < MAX_ITEMS_PER_CATEGORY \<and> page \<le> MAX_PAGES_TO_SCAN")
    case False
    then have "walk_pages w cat path page (n, st) = Inr (n, st)"
      by (rule walk_pages_stop)
    then show ?thesis by simp
  next
    case True
    then have c: "n < MAX_ITEMS_PER_CATEGORY" "page \<le> MAX_PAGES_TO_SCAN" by auto
    show ?thesis
    proof (cases "fetch_listing w path page")
      case None
      then have ne: "page \<noteq> k" using "1.prems" by auto
      have "walk_pages w cat path page (n, st) = Inl (RequestException, ?st1)"
        using c None by (rule walk_pages_error)
      then show ?thesis using "1.prems" None ne by auto
    next
      case (Some links)
      show ?thesis
      proof (cases "links = []")
        case True
        have "walk_pages w cat path page (n, st) = Inr (n, ?st1)"
          using c Some True by (simp add: walk_pages_empty)
        then show ?thesis using "1.prems" by auto
      next
        case False
        then have lt: "page + 1 \<le> k"
          using "1.prems" Some by (cases "page = k") auto
        obtain n1 st1 where scan: "scan_links w cat links (n, ?st1) = (n1, st1)"
          by (cases "scan_links w cat links (n, ?st1)") auto
        from scan_links_log[OF scan] obtain us where
          us: "requests_log st1 = requests_log st @ ListingPage path page # map ItemPage us"
          by auto
        have w: "walk_pages w cat path page (n, st) = walk_pages w cat path (page + 1) (n1, st1)"
          using c Some False scan by (simp add: walk_pages_next)
        from "1.IH"[OF True refl Some False "1.prems"(1) lt]
        have ih: "(\<exists>new. requests_log (walk_state (walk_pages w cat path (page + 1) (n1, st1)))
                 = requests_log st1 @ new
              \<and> (\<forall>path' q. ListingPage path' q \<in> set new \<longrightarrow> path' = path \<and> page + 1 \<le> q \<and> q \<le> k)
              \<and> (ListingPage path k \<in> set new \<longrightarrow> (\<exists>pre. new = pre @ [ListingPage path k])))
         \<and> ((\<forall>q. page + 1 \<le> q \<and> q < k \<longrightarrow> fetch_listing w path q \<noteq> None)
              \<longrightarrow> (\<exists>ns'. walk_pages w cat path (page + 1) (n1, st1) = Inr ns'))"
          unfolding scan by simp
        then obtain new where new:
          "requests_log (walk_state (walk_pages w cat path (page + 1) (n1, st1)))
             = requests_log st1 @ new"
          "\<forall>path' q. ListingPage path' q \<in> set new \<longrightarrow> path' = path \<and> page + 1 \<le> q \<and> q \<le> k"
          "ListingPage path k \<in> set new \<longrightarrow> (\<exists>pre. new = pre @ [ListingPage path k])"
          by blast
        let ?new = "ListingPage path page # map ItemPage us @ new"
        have 1: "\<exists>new'. requests_log (walk_state (walk_pages w cat path page (n, st)))
                 = requests_log (snd (n, st)) @ new'
              \<and> (\<forall>path' q. ListingPage path' q \<in> set new' \<longrightarrow> path' = path \<and> page \<le> q \<and> q \<le> k)
              \<and> (ListingPage path k \<in> set new' \<longrightarrow> (\<exists>pre. new' = pre @ [ListingPage path k]))"
        proof (intro exI[of _ ?new] conjI)
          show "requests_log (walk_state (walk_pages w cat path page (n, st)))
                 = requests_log (snd (n, st)) @ ?new"
            unfolding w new(1) us by simp
          show "\<forall>path' q. ListingPage path' q \<in> set ?new
                  \<longrightarrow> path' = path \<and> page \<le> q \<and> q \<le> k"
            using new(2) lt by (auto dest: Suc_leD)
          show "ListingPage path k \<in> set ?new \<longrightarrow> (\<exists>pre. ?new = pre @ [ListingPage path k])"
          proof
            assume "ListingPage path k \<in> set ?new"
            then have "ListingPage path k \<in> set new" using lt by auto
            with new(3) obtain pre where "new = pre @ [ListingPage path k]" by blast
            then have "?new = (ListingPage path page # map ItemPage us @ pre) @ [ListingPage path k]"
              by simp
            then show "\<exists>pre. ?new = pre @ [ListingPage path k]" by (rule exI)
          qed
        qed
        have 2: "(\<forall>q. page \<le> q \<and> q < k \<longrightarrow> fetch_listing w path q \<noteq> None)
              \<longrightarrow> (\<exists>ns'. walk_pages w cat path page (n, st) = Inr ns')"
          using ih unfolding w by auto
        from 1 2 show ?thesis by blast
      qed
    qed
  qed
qed


lemma crawl_inv_listing:
  "crawl_inv st \<Longrightarrow> crawl_inv (st\<lparr> requests_log := requests_log st @ [ListingPage path page] \<rparr>)"
  by (simp add: crawl_inv_def item_requests_append)

lemma crawl_inv_visit:
  "crawl_inv st \<Longrightarrow> u \<notin> visited_item_urls st \<Longrightarrow>
   crawl_inv (st\<lparr> visited_item_urls := insert u (visited_item_urls st),
                 requests_log := requests_log st @ [ItemPage u] \<rparr>)"
  by (auto simp: crawl_inv_def item_requests_append)

lemma crawl_inv_collect:
  "crawl_inv st \<Longrightarrow> u \<notin> visited_item_urls st \<Longrightarrow>
   crawl_inv (st\<lparr> visited_item_urls := insert u (visited_item_urls st),
                 requests_log := requests_log st @ [ItemPage u],
                 collected_items := collected_items st @ [extract_record cat u page] \<rparr>)"
  by (auto simp: crawl_inv_def item_requests_append extract_record_def)

lemma walk_effect_refl: "crawl_inv st \<Longrightarrow> walk_effect cat st st"
  by (simp add: walk_effect_def)

lemma walk_effect_trans:
  "walk_effect cat st st1 \<Longrightarrow> walk_effect cat st1 st2 \<Longrightarrow> walk_effect cat st st2"
  unfolding walk_effect_def list_all_iff by (elim conjE exE) (auto 0 3)

lemma scan_links_effect:
  "crawl_inv st \<Longrightarrow> scan_links w cat links (n, st) = (n', st') \<Longrightarrow> walk_effect cat st st'"
proof (induction links arbitrary: n st)
  case Nil
  then show ?case by (simp add: walk_effect_refl)
next
  case (Cons l links)
  show ?case
  proof (cases "MAX_ITEMS_PER_CATEGORY \<le> n")
    case True
    with Cons.prems show ?thesis by (simp add: walk_effect_refl)
  next
    case False
    note lt = False
    show ?thesis
    proof (cases "link_url l")
      case None
      then have "scan_links w cat (l # links) (n, st) = scan_links w cat links (n, st)"
        using lt by (auto simp: link_url_def split: option.splits if_splits)
      with Cons.prems Cons.IH[of st n] show ?thesis by simp
    next
      case (Some u)
      then obtain rel where l: "l = Some rel" "rel \<noteq> []" "u = BASE_SITE_URL @ rel"
        by (auto simp: link_url_def split: option.splits if_splits)
      show ?thesis
      proof (cases "u \<in> visited_item_urls st")
        case True
        then have "scan_links w cat (l # links) (n, st) = scan_links w cat links (n, st)"
          using lt l by simp
        with Cons.prems Cons.IH[of st n] show ?thesis by simp
      next
        case False
        let ?st1 = "st\<lparr> visited_item_urls := insert u (visited_item_urls st),
                         requests_log := requests_log st @ [ItemPage u] \<rparr>"
        show ?thesis
        proof (cases "fetch_item w u")
          case None
          then have "scan_links w cat (l # links) (n, st) = scan_links w cat links (n, ?st1)"
            using lt l False by (simp add: Let_def)
          with Cons.prems have s: "scan_links w cat links (n, ?st1) = (n', st')" by simp
          have i1: "crawl_inv ?st1" using Cons.prems(1) False by (rule crawl_inv_visit)
          then have "walk_effect cat st ?st1"
            by (auto simp: walk_effect_def)
          moreover have "walk_effect cat ?st1 st'" using i1 s by (rule Cons.IH)
          ultimately show ?thesis by (rule walk_effect_trans)
        next
          case (Some page)
          let ?st2 = "?st1\<lparr> collected_items := collected_items ?st1 @ [extract_record cat u page] \<rparr>"
          have "scan_links w cat (l # links) (n, st) = scan_links w cat links (n + 1, ?st2)"
            using lt l False Some by (simp add: Let_def)
          with Cons.prems have s: "scan_links w cat links (n + 1, ?st2) = (n', st')" by simp
          have i2: "crawl_inv ?st2"
            using crawl_inv_collect[OF Cons.prems(1) False, of cat page] by simp
          then have "walk_effect cat st ?st2"
            using False by (auto simp: walk_effect_def extract_record_def)
          moreover have "walk_effect cat ?st2 st'" using i2 s by (rule Cons.IH)
          ultimately show ?thesis by (rule walk_effect_trans)
        qed
      qed
    qed
  qed
qed

lemma walk_pages_effect:
  "crawl_inv (snd ns) \<Longrightarrow> walk_effect cat (snd ns) (walk_state (walk_pages w cat path page ns))"
proof (induction w cat path page ns rule: walk_pages.induct)
  case (1 w cat path page n st)
  let ?st1 = "st\<lparr> requests_log := requests_log st @ [ListingPage path page] \<rparr>"
  from "1.prems" have inv: "crawl_inv st" by simp
  then have inv1: "crawl_inv ?st1" by (rule crawl_inv_listing)
  then have e1: "walk_effect cat st ?st1" by (simp add: walk_effect_def)
  show ?case
  proof (cases "n < MAX_ITEMS_PER_CATEGORY \<and> page \<le> MAX_PAGES_TO_SCAN")
    case False
    then have "walk_pages w cat path page (n, st) = Inr (n, st)"
      by (rule walk_pages_stop)
    then show ?thesis using inv by (simp add: walk_effect_refl)
  next
    case True
    then have c: "n < MAX_ITEMS_PER_CATEGORY" "page \<le> MAX_PAGES_TO_SCAN" by auto
    show ?thesis
    proof (cases "fetch_listing w path page")
      case None
      have "walk_pages w cat path page (n, st) = Inl (RequestException, ?st1)"
        using c None by (rule walk_pages_error)
      then show ?thesis using e1 by simp
    next
      case (Some links)
      show ?thesis
      proof (cases "links = []")
        case True
        have "walk_pages w cat path page (n, st) = Inr (n, ?st1)"
          using c Some True by (simp add: walk_pages_empty)
        then show ?thesis using e1 by simp
      next
        case False
        obtain n1 st1 where scan: "scan_links w cat links (n, ?st1) = (n1, st1)"
          by (cases "scan_links w cat links (n, ?st1)") auto
        have e2: "walk_effect cat ?st1 st1" using inv1 scan by (rule scan_links_effect)
        then have inv2: "crawl_inv st1" by (simp add: walk_effect_def)
        have w: "walk_pages w cat path page (n, st) = walk_pages w cat path (page + 1) (n1, st1)"
          using c Some False scan by (simp add: walk_pages_next)
        from "1.IH"[OF True refl Some False] inv2
        have "walk_effect cat st1 (walk_state (walk_pages w cat path (page + 1) (n1, st1)))"
          unfolding scan by simp
        with e1 e2 show ?thesis unfolding w
          by (auto intro: walk_effect_trans)
      qed
    qed
  qed
qed

lemma walk_category_effect:
  "crawl_inv st \<Longrightarrow> walk_effect cat st (final_state (walk_category w cat path st))"
  using walk_pages_effect[of "(0, st)" cat w path 1]
  by (simp add: final_state_walk_category)

lemma scrape_categories_inv:
  "crawl_inv st \<Longrightarrow> crawl_inv (final_state (scrape_categories w cs st))"
proof (induction cs arbitrary: st)
  case Nil
  then show ?case by simp
next
  case (Cons c cs)
  obtain cat path where c: "c = (cat, path)" by (cases c)
  from walk_category_effect[OF Cons.prems, of cat w path]
  have inv1: "crawl_inv (final_state (walk_category w cat path st))"
    by (simp add: walk_effect_def)
  show ?case
  proof (cases "walk_category w cat path st")
    case (Inl e)
    with inv1 show ?thesis by (simp add: c)
  next
    case (Inr st1)
    with inv1 Cons.IH[of st1] show ?thesis by (simp add: c)
  qed
qed

lemma crawl_inv_initial: "crawl_inv initial_state"
  by (simp add: crawl_inv_def initial_state_def)

lemma scrape_inv: "crawl_inv (final_state (scrape w))"
  unfolding scrape_def by (rule scrape_categories_inv[OF crawl_inv_initial])

text \<open>
  C6. The discoverable items of a category are those of the links on its listing pages,
  in page order then link order, over the pages the walk may scan: from page 1 up to the
  first page without links and to page 30. When every one of these listing pages can be
  fetched and the category has at least 30 discoverable items (50, say), the walk returns
  normally and appends exactly 30 records: the records of the first 30 discoverable items,
  in their order. Once the count has reached the cap, scanning the links of a page changes
  nothing: no link is marked visited and no item is requested.
\<close>

theorem cap_enforcement:
  "((\<forall>q. 1 \<le> q \<and> q \<le> MAX_PAGES_TO_SCAN \<longrightarrow> fetch_listing w path q \<noteq> None)
     \<and> MAX_ITEMS_PER_CATEGORY \<le> length (discover w (visited_item_urls st) (links_from w path 1))
    \<longrightarrow> (\<exists>st'. walk_category w cat path st = Inr st'
          \<and> collected_items st' = collected_items st
               @ map (\<lambda>(u, p). extract_record cat u p)
                   (take MAX_ITEMS_PER_CATEGORY
                      (discover w (visited_item_urls st) (links_from w path 1)))
          \<and> length (collected_items st') = length (collected_items st) + 30))
   \<and> (MAX_ITEMS_PER_CATEGORY \<le> n \<longrightarrow> scan_links w cat links (n, st0) = (n, st0))
   \<and> MAX_ITEMS_PER_CATEGORY = 30"
proof -
  have 1: "\<exists>st'. walk_category w cat path st = Inr st'
          \<and> collected_items st' = collected_items st
               @ map (\<lambda>(u, p). extract_record cat u p)
                   (take MAX_ITEMS_PER_CATEGORY
                      (discover w (visited_item_urls st) (links_from w path 1)))
          \<and> length (collected_items st') = length (collected_items st) + 30"
    if pages: "\<forall>q. 1 \<le> q \<and> q \<le> MAX_PAGES_TO_SCAN \<longrightarrow> fetch_listing w path q \<noteq> None"
      and many: "MAX_ITEMS_PER_CATEGORY \<le> length (discover w (visited_item_urls st) (links_from w path 1))"
  proof -
    from walk_pages_discover[OF pages, of cat "(0, st)"]
    obtain n' st' where w: "walk_pages w cat path 1 (0, st) = Inr (n', st')"
      and c: "collected_items st' = collected_items st
               @ map (\<lambda>(u, p). extract_record cat u p)
                   (take MAX_ITEMS_PER_CATEGORY
                      (discover w (visited_item_urls st) (links_from w path 1)))"
      by auto
    have "walk_category w cat path st = Inr st'"
      using w by (simp add: walk_category_def)
    moreover have "length (collected_items st') = length (collected_items st) + 30"
      using many unfolding c by (simp add: MAX_ITEMS_PER_CATEGORY_def)
    ultimately show ?thesis using c by blast
  qed
  have 2: "scan_links w cat links (n, st0) = (n, st0)" if "MAX_ITEMS_PER_CATEGORY \<le> n"
    using that by (cases links) simp_all
  show ?thesis
    using 1 2 by (simp add: MAX_ITEMS_PER_CATEGORY_def)
qed

theorem cap_enforcement_witness:
  "\<exists>st'. walk_category fifty_items ''Furniture'' ''/antiques/furniture/'' initial_state = Inr st'
     \<and> length (collected_items st') = 30
     \<and> map source_url (collected_items st')
         = map (\<lambda>(u, p). u) (take 30 (discover fifty_items {}
              (links_from fifty_items ''/antiques/furniture/'' 1)))"
proof -
  have pages: "\<forall>q. 1 \<le> q \<and> q \<le> MAX_PAGES_TO_SCAN \<longrightarrow>
      fetch_listing fifty_items ''/antiques/furniture/'' q \<noteq> None"
    by (simp add: fifty_items_def site_of_pages_def)
  have "length (discover fifty_items {} (links_from fifty_items ''/antiques/furniture/'' 1)) = 50"
    by code_simp
  then have many: "MAX_ITEMS_PER_CATEGORY \<le> length (discover fifty_items
      (visited_item_urls initial_state) (links_from fifty_items ''/antiques/furniture/'' 1))"
    by (simp add: MAX_ITEMS_PER_CATEGORY_def initial_state_def)
  from cap_enforcement[of fifty_items "''/antiques/furniture/''" initial_state "''Furniture''"]
    pages many
  obtain st' where
    "walk_category fifty_items ''Furniture'' ''/antiques/furniture/'' initial_state = Inr st'"
    "collected_items st' = collected_items initial_state
               @ map (\<lambda>(u, p). extract_record ''Furniture'' u p)
                   (take MAX_ITEMS_PER_CATEGORY
                      (discover fifty_items (visited_item_urls initial_state)
                         (links_from fifty_items ''/antiques/furniture/'' 1)))"
    "length (collected_items st') = length (collected_items initial_state) + 30"
    by blast
  then show ?thesis
    by (intro exI[of _ st'])
       (simp add: initial_state_def MAX_ITEMS_PER_CATEGORY_def extract_record_def
          comp_def case_prod_unfold take_map)
qed


text \<open>
  C7. When the listing page \<open>k\<close> of a category has no links, the walk requests no
  listing page after page \<open>k\<close>, whatever the other pages hold; if it requests page
  \<open>k\<close>, that is its last request; and it ends normally when the pages before \<open>k\<close>
  can be fetched. With no links on page 3 the listing pages
  requested are among pages 1, 2 and 3, so page 30, the last page the script may scan,
  is never requested.
\<close>

theorem empty_page_ends_walk:
  "(fetch_listing w path k = Some [] \<and> 1 \<le> k \<longrightarrow>
      (\<exists>new. requests_log (final_state (walk_category w cat path st)) = requests_log st @ new
          \<and> (\<forall>path' q. ListingPage path' q \<in> set new \<longrightarrow> path' = path \<and> 1 \<le> q \<and> q \<le> k)
          \<and> (ListingPage path k \<in> set new \<longrightarrow> (\<exists>pre. new = pre @ [ListingPage path k]))))
   \<and> (fetch_listing w path k = Some [] \<and> 1 \<le> k
        \<and> (\<forall>q. 1 \<le> q \<and> q < k \<longrightarrow> fetch_listing w path q \<noteq> None)
       \<longrightarrow> (\<exists>st'. walk_category w cat path st = Inr st'))
   \<and> (fetch_listing w path 3 = Some [] \<longrightarrow>
        (\<exists>new. requests_log (final_state (walk_category w cat path st)) = requests_log st @ new
           \<and> (\<forall>q. ListingPage path q \<in> set new \<longrightarrow> q = 1 \<or> q = 2 \<or> q = 3)
           \<and> ListingPage path MAX_PAGES_TO_SCAN \<notin> set new))"
proof -
  have general: "(\<exists>new. requests_log (final_state (walk_category w cat path st)) = requests_log st @ new
          \<and> (\<forall>path' q. ListingPage path' q \<in> set new \<longrightarrow> path' = path \<and> 1 \<le> q \<and> q \<le> j)
          \<and> (ListingPage path j \<in> set new \<longrightarrow> (\<exists>pre. new = pre @ [ListingPage path j])))
        \<and> ((\<forall>q. 1 \<le> q \<and> q < j \<longrightarrow> fetch_listing w path q \<noteq> None)
              \<longrightarrow> (\<exists>st'. walk_category w cat path st = Inr st'))"
    if "fetch_listing w path j = Some []" "1 \<le> j" for j
  proof -
    note s = walk_pages_stops_at_empty[OF that, of cat "(0, st)"]
    from s have "\<exists>new. requests_log (final_state (walk_category w cat path st)) = requests_log st @ new
          \<and> (\<forall>path' q. ListingPage path' q \<in> set new \<longrightarrow> path' = path \<and> 1 \<le> q \<and> q \<le> j)
          \<and> (ListingPage path j \<in> set new \<longrightarrow> (\<exists>pre. new = pre @ [ListingPage path j]))"
      by (simp add: final_state_walk_category)
    moreover have "\<exists>st'. walk_category w cat path st = Inr st'"
      if "\<forall>q. 1 \<le> q \<and> q < j \<longrightarrow> fetch_listing w path q \<noteq> None"
    proof -
      from s that obtain ns' where "walk_pages w cat path 1 (0, st) = Inr ns'" by blast
      then show ?thesis by (cases ns') (simp add: walk_category_def)
    qed
    ultimately show ?thesis by blast
  qed
  have three: "\<exists>new. requests_log (final_state (walk_category w cat path st)) = requests_log st @ new
           \<and> (\<forall>q. ListingPage path q \<in> set new \<longrightarrow> q = 1 \<or> q = 2 \<or> q = 3)
           \<and> ListingPage path MAX_PAGES_TO_SCAN \<notin> set new"
    if "fetch_listing w path 3 = Some []"
  proof -
    from general[OF that] obtain new where
      new: "requests_log (final_state (walk_category w cat path st)) = requests_log st @ new"
        "\<forall>path' q. ListingPage path' q \<in> set new \<longrightarrow> path' = path \<and> 1 \<le> q \<and> q \<le> 3"
      by auto
    have "\<forall>q. ListingPage path q \<in> set new \<longrightarrow> q = 1 \<or> q = 2 \<or> q = 3"
    proof (intro allI impI)
      fix q assume "ListingPage path q \<in> set new"
      with new(2) have "1 \<le> q \<and> q \<le> 3" by blast
      then show "q = 1 \<or> q = 2 \<or> q = 3" by arith
    qed
    moreover have "ListingPage path MAX_PAGES_TO_SCAN \<notin> set new"
    proof
      assume "ListingPage path MAX_PAGES_TO_SCAN \<in> set new"
      with new(2) have "MAX_PAGES_TO_SCAN \<le> 3" by blast
      then show False by (simp add: MAX_PAGES_TO_SCAN_def)
    qed
    ultimately show ?thesis using new(1) by blast
  qed
  show ?thesis
    using general[of k] three by blast
qed

theorem empty_page_ends_walk_witness:
  "(\<exists>st'. walk_category empty_third_page ''Silver'' ''/antiques/silver/'' initial_state = Inr st')
   \<and> requests_log (final_state
        (walk_category empty_third_page ''Silver'' ''/antiques/silver/'' initial_state))
     = [ListingPage ''/antiques/silver/'' 1,
        ItemPage ''https://www.antiques-atlas.com/antique/item-01'',
        ItemPage ''https://www.antiques-atlas.com/antique/item-02'',
        ListingPage ''/antiques/silver/'' 2,
        ItemPage ''https://www.antiques-atlas.com/antique/item-03'',
        ListingPage ''/antiques/silver/'' 3]"
proof -
  have e: "fetch_listing empty_third_page ''/antiques/silver/'' 3 = Some [] \<and> (1::nat) \<le> 3"
    by (simp add: empty_third_page_def site_of_pages_def)
  have p: "\<forall>q. 1 \<le> q \<and> q < 3 \<longrightarrow> fetch_listing empty_third_page ''/antiques/silver/'' q \<noteq> None"
    by (simp add: empty_third_page_def site_of_pages_def)
  have v: "requests_log (final_state
        (walk_category empty_third_page ''Silver'' ''/antiques/silver/'' initial_state))
     = [ListingPage ''/antiques/silver/'' 1,
        ItemPage ''https://www.antiques-atlas.com/antique/item-01'',
        ItemPage ''https://www.antiques-atlas.com/antique/item-02'',
        ListingPage ''/antiques/silver/'' 2,
        ItemPage ''https://www.antiques-atlas.com/antique/item-03'',
        ListingPage ''/antiques/silver/'' 3]"
    by code_simp
  from empty_page_ends_walk[of empty_third_page "''/antiques/silver/''" 3 "''Silver''" initial_state]
    e p
  have "\<exists>st'. walk_category empty_third_page ''Silver'' ''/antiques/silver/'' initial_state = Inr st'"
    by blast
  then show ?thesis using v by (rule conjI)
qed

text \<open>
  C8. In the state a run ends in, the sources of the collected records are pairwise
  distinct, no item URL has been requested twice, every collected source has been
  requested and every requested item URL is in the visited set. A walk for a category
  started in a state with these properties keeps them, keeps the records collected
  before, and appends only records tagged with its own category for URLs that were not
  visited before: an item belongs to the first walk that meets it. A link to a visited
  URL is skipped without a request; a link to a new URL is marked visited and requested,
  whether or not the fetch succeeds.
\<close>

theorem visited_set_unique_sources:
  "distinct (map source_url (collected_items (final_state (scrape w))))
   \<and> distinct (item_requests (requests_log (final_state (scrape w))))
   \<and> set (map source_url (collected_items (final_state (scrape w))))
       \<subseteq> set (item_requests (requests_log (final_state (scrape w))))
   \<and> set (item_requests (requests_log (final_state (scrape w))))
       \<subseteq> visited_item_urls (final_state (scrape w))
   \<and> (crawl_inv st \<longrightarrow>
        crawl_inv (final_state (walk_category w cat path st))
        \<and> visited_item_urls st \<subseteq> visited_item_urls (final_state (walk_category w cat path st))
        \<and> (\<exists>new. collected_items (final_state (walk_category w cat path st))
                    = collected_items st @ new
               \<and> (\<forall>r\<in>set new. category r = cat \<and> source_url r \<notin> visited_item_urls st)))
   \<and> (link_url l1 = Some u1 \<and> u1 \<in> visited_item_urls st1 \<longrightarrow>
        scan_links w cat [l1] (n1, st1) = (n1, st1))
   \<and> (link_url l2 = Some u2 \<and> u2 \<notin> visited_item_urls st2 \<and> n2 < MAX_ITEMS_PER_CATEGORY \<longrightarrow>
        u2 \<in> visited_item_urls (snd (scan_links w cat [l2] (n2, st2)))
        \<and> requests_log (snd (scan_links w cat [l2] (n2, st2))) = requests_log st2 @ [ItemPage u2])"
proof -
  have run: "distinct (map source_url (collected_items (final_state (scrape w))))
   \<and> distinct (item_requests (requests_log (final_state (scrape w))))
   \<and> set (map source_url (collected_items (final_state (scrape w))))
       \<subseteq> set (item_requests (requests_log (final_state (scrape w))))
   \<and> set (item_requests (requests_log (final_state (scrape w))))
       \<subseteq> visited_item_urls (final_state (scrape w))"
    using scrape_inv[of w] by (simp add: crawl_inv_def)
  have walk: "crawl_inv (final_state (walk_category w cat path st))
        \<and> visited_item_urls st \<subseteq> visited_item_urls (final_state (walk_category w cat path st))
        \<and> (\<exists>new. collected_items (final_state (walk_category w cat path st))
                    = collected_items st @ new
               \<and> (\<forall>r\<in>set new. category r = cat \<and> source_url r \<notin> visited_item_urls st))"
    if "crawl_inv st"
    using walk_category_effect[OF that, of cat w path]
    by (simp add: walk_effect_def list_all_iff)
  have skip: "scan_links w cat [l1] (n1, st1) = (n1, st1)"
    if "link_url l1 = Some u1" "u1 \<in> visited_item_urls st1"
    using that by (auto simp: link_url_def Let_def split: option.splits if_splits)
  have mark: "u2 \<in> visited_item_urls (snd (scan_links w cat [l2] (n2, st2)))
        \<and> requests_log (snd (scan_links w cat [l2] (n2, st2))) = requests_log st2 @ [ItemPage u2]"
    if "link_url l2 = Some u2" "u2 \<notin> visited_item_urls st2" "n2 < MAX_ITEMS_PER_CATEGORY"
    using that by (auto simp: link_url_def Let_def split: option.splits if_splits)
  show ?thesis
    using run walk skip mark by blast
qed


theorem visited_set_unique_sources_witness:
  "distinct (map source_url (collected_items (final_state (scrape shared_items))))
   \<and> map (\<lambda>r. (source_url r, category r)) (collected_items (final_state (scrape shared_items)))
       = [(''https://www.antiques-atlas.com/antique/item-01'', ''Furniture''),
          (''https://www.antiques-atlas.com/antique/item-02'', ''Furniture'')]
   \<and> item_requests (requests_log (final_state (scrape shared_items)))
       = [''https://www.antiques-atlas.com/antique/item-01'',
          ''https://www.antiques-atlas.com/antique/item-02'']
   \<and> scan_links shared_items ''Ceramics'' [item_link 1]
         (0, initial_state\<lparr> visited_item_urls := {''https://www.antiques-atlas.com/antique/item-01''} \<rparr>)
       = (0, initial_state\<lparr> visited_item_urls := {''https://www.antiques-atlas.com/antique/item-01''} \<rparr>)
   \<and> requests_log (snd (scan_links shared_items ''Ceramics'' [item_link 1] (0, initial_state)))
       = requests_log initial_state @ [ItemPage ''https://www.antiques-atlas.com/antique/item-01'']
   \<and> crawl_inv (final_state
         (walk_category shared_items ''Ceramics'' ''/antiques/ceramics/'' initial_state))"
proof -
  let ?u = "''https://www.antiques-atlas.com/antique/item-01''"
  let ?seen = "initial_state\<lparr> visited_item_urls := {?u} \<rparr>"
  have l: "link_url (item_link 1) = Some ?u"
    by code_simp
  have v1: "map (\<lambda>r. (source_url r, category r)) (collected_items (final_state (scrape shared_items)))
       = [(''https://www.antiques-atlas.com/antique/item-01'', ''Furniture''),
          (''https://www.antiques-atlas.com/antique/item-02'', ''Furniture'')]"
    by code_simp
  have v2: "item_requests (requests_log (final_state (scrape shared_items)))
       = [''https://www.antiques-atlas.com/antique/item-01'',
          ''https://www.antiques-atlas.com/antique/item-02'']"
    by code_simp
  have h1: "?u \<in> visited_item_urls ?seen" by simp
  have h2: "?u \<notin> visited_item_urls initial_state \<and> 0 < MAX_ITEMS_PER_CATEGORY"
    by (simp add: initial_state_def MAX_ITEMS_PER_CATEGORY_def)
  note inst = visited_set_unique_sources[where w = shared_items and st = initial_state
      and cat = "''Ceramics''" and path = "''/antiques/ceramics/''"
      and ?l1.0 = "item_link 1" and ?u1.0 = ?u and ?st1.0 = ?seen and ?n1.0 = 0
      and ?l2.0 = "item_link 1" and ?u2.0 = ?u and ?st2.0 = initial_state and ?n2.0 = 0]
  from inst have "distinct (map source_url (collected_items (final_state (scrape shared_items))))"
    by blast
  moreover from inst l h1 have "scan_links shared_items ''Ceramics'' [item_link 1] (0, ?seen) = (0, ?seen)"
    by blast
  moreover from inst l h2
  have "requests_log (snd (scan_links shared_items ''Ceramics'' [item_link 1] (0, initial_state)))
       = requests_log initial_state @ [ItemPage ?u]"
    by blast
  moreover from inst crawl_inv_initial
  have "crawl_inv (final_state
         (walk_category shared_items ''Ceramics'' ''/antiques/ceramics/'' initial_state))"
    by blast
  ultimately show ?thesis using v1 v2 by blast
qed


end
